theory Spec2Isabelle
  imports Complex_Main "HOL-Library.Word"
begin

section \<open>Data model of the two bloom filters\<close>

text \<open>
  \<^verbatim>\<open>size_type\<close> is \<^verbatim>\<open>std::uint64_t\<close> in both classes; the ordinal filter stores
  cells of \<^verbatim>\<open>elem_type = std::uint8_t\<close>.
\<close>

type_synonym size_type = "64 word"
type_synonym elem_type = "8 word"

text \<open>
  The ways an operation can leave its normal path. \<open>RangeError\<close> is the
  \<^verbatim>\<open>std::range_error\<close> thrown by the constructors, and \<open>AllocationFailure\<close> is the
  exception of \<^verbatim>\<open>std::vector\<close> when the array cannot be built (\<^verbatim>\<open>std::length_error\<close> or
  \<^verbatim>\<open>std::bad_alloc\<close>). The other two are undefined behaviour in C++: \<open>DivisionByZero\<close> is
  \<^verbatim>\<open>% _bit_array_size\<close> with a zero size in \<^verbatim>\<open>hash_at_n\<close>, \<open>OutOfBounds\<close> is
  \<^verbatim>\<open>_bits[hash_val]\<close> with an index that is not below the vector's length.
\<close>

datatype error = RangeError | AllocationFailure | DivisionByZero | OutOfBounds

text \<open>
  The argument \<^verbatim>\<open>double false_positive\<close>. The constructors only compare it with 0 and 1
  before handing it to \<^verbatim>\<open>std::log\<close>, so a double is modelled by the value it denotes: a
  real number, an infinity, or NaN. An ordered comparison with NaN is false.
\<close>

datatype double = Finite real | PosInf | NegInf | NaN

fun double_le :: "double \<Rightarrow> real \<Rightarrow> bool" where
  "double_le (Finite x) c = (x \<le> c)"
| "double_le PosInf c = False"
| "double_le NegInf c = True"
| "double_le NaN c = False"

fun double_ge :: "double \<Rightarrow> real \<Rightarrow> bool" where
  "double_ge (Finite x) c = (c \<le> x)"
| "double_ge PosInf c = True"
| "double_ge NegInf c = False"
| "double_ge NaN c = False"

text \<open>
  \<^verbatim>\<open>MurmurHash3_x64_128(p, sizeof(T), 0, hash_val)\<close> is declared in \<^verbatim>\<open>MurmurHash3.h\<close>, outside
  the two headers. It is a parameter \<open>murmur\<close> of the model: a function from the element to
  the two 64-bit halves \<^verbatim>\<open>hash_val[0]\<close> and \<^verbatim>\<open>hash_val[1]\<close>.
\<close>

type_synonym 'a hash128 = "'a \<Rightarrow> size_type \<times> size_type"

text \<open>
  The sizing code of the constructors is IEEE double arithmetic (\<^verbatim>\<open>std::log\<close>,
  \<^verbatim>\<open>std::ceil\<close>, \<^verbatim>\<open>std::round\<close> and conversions between \<^verbatim>\<open>double\<close> and \<^verbatim>\<open>size_type\<close>). It
  enters the model as two parameters: \<open>array_size_of false_positive capacity\<close> stands for
  the value stored in \<^verbatim>\<open>_bit_array_size\<close>, and \<open>hash_num_of bit_array_size capacity\<close> for the
  value stored in \<^verbatim>\<open>_hash_func_num\<close>.
\<close>

type_synonym array_sizing = "double \<Rightarrow> size_type \<Rightarrow> size_type"
type_synonym hash_sizing = "size_type \<Rightarrow> size_type \<Rightarrow> size_type"

text \<open>
  One result of that computation does not depend on rounding. For a zero array size and a
  non-zero capacity, \<^verbatim>\<open>static_cast<double>(_bit_array_size)\<close> is 0.0, the quotient by the
  capacity is 0.0, its product with \<^verbatim>\<open>ln2\<close> is 0.0 and \<^verbatim>\<open>std::round\<close> of it is 0.0, all
  exactly: the constructors store 0 hash functions. Every other value is the parameter
  (for capacity 0 the quotient is 0.0 / 0.0, which is NaN).
\<close>

definition hash_func_num_of :: "hash_sizing \<Rightarrow> size_type \<Rightarrow> size_type \<Rightarrow> size_type" where
  "hash_func_num_of hash_num_of bit_array_size capacity =
     (if bit_array_size = 0 \<and> capacity \<noteq> 0 then 0
      else hash_num_of bit_array_size capacity)"

text \<open>
  \<^verbatim>\<open>std::vector<...>(_bit_array_size, ...)\<close> throws when that many cells cannot be
  allocated. Whether they can is a parameter \<open>alloc\<close> of the model.
\<close>

type_synonym allocation = "size_type \<Rightarrow> bool"

subsection \<open>BasicBloomFilter\<close>

record basic_filter =
  b_bits :: "bool list"
  b_bit_array_size :: size_type
  b_hash_func_num :: size_type

definition BasicBloomFilter_ctor ::
  "allocation \<Rightarrow> array_sizing \<Rightarrow> hash_sizing \<Rightarrow> double \<Rightarrow> size_type
   \<Rightarrow> error + basic_filter" where
  "BasicBloomFilter_ctor alloc array_size_of hash_num_of false_positive capacity =
     (if double_le false_positive 0 \<or> double_ge false_positive 1 then Inl RangeError
      else
        let bit_array_size = array_size_of false_positive capacity
        in if alloc bit_array_size then
             let bits = replicate (unat bit_array_size) False;
                 hash_func_num = hash_func_num_of hash_num_of bit_array_size capacity
             in Inr \<lparr>b_bits = bits, b_bit_array_size = bit_array_size,
                      b_hash_func_num = hash_func_num\<rparr>
           else Inl AllocationFailure)"

text \<open>
  The move constructor returns the new filter and the state left in \<^verbatim>\<open>rhs\<close>. A vector that
  has been moved from holds no elements.
\<close>

definition BasicBloomFilter_move :: "basic_filter \<Rightarrow> basic_filter \<times> basic_filter" where
  "BasicBloomFilter_move rhs =
     (\<lparr>b_bits = b_bits rhs, b_bit_array_size = b_bit_array_size rhs,
       b_hash_func_num = b_hash_func_num rhs\<rparr>,
      \<lparr>b_bits = [], b_bit_array_size = 0, b_hash_func_num = 0\<rparr>)"

definition BasicBloomFilter_clear :: "basic_filter \<Rightarrow> basic_filter" where
  "BasicBloomFilter_clear F = F\<lparr>b_bits := replicate (unat (b_bit_array_size F)) False\<rparr>"

definition basic_hash_at_n ::
  "'a hash128 \<Rightarrow> basic_filter \<Rightarrow> 'a \<Rightarrow> size_type \<Rightarrow> error + size_type" where
  "basic_hash_at_n murmur F p n =
     (let hash_a = fst (murmur p); hash_b = snd (murmur p)
      in if b_bit_array_size F = 0 then Inl DivisionByZero
         else Inr ((hash_a + n * hash_b) mod b_bit_array_size F))"

text \<open>The loop of \<^verbatim>\<open>add\<close>, from round \<open>i\<close> on.\<close>

function basic_add_loop ::
  "'a hash128 \<Rightarrow> 'a \<Rightarrow> size_type \<Rightarrow> basic_filter \<Rightarrow> error + basic_filter" where
  "basic_add_loop murmur elem i F =
     (if i < b_hash_func_num F then
        (case basic_hash_at_n murmur F elem i of
           Inl err \<Rightarrow> Inl err
         | Inr hash_val \<Rightarrow>
             if unat hash_val < length (b_bits F)
             then basic_add_loop murmur elem (i + 1)
                    (F\<lparr>b_bits := (b_bits F)[unat hash_val := True]\<rparr>)
             else Inl OutOfBounds)
      else Inr F)"
  by pat_completeness auto
termination
proof (relation "measure (\<lambda>(murmur, elem, i, F). unat (b_hash_func_num F) - unat i)")
  show "wf (measure (\<lambda>(murmur, elem, i, F). unat (b_hash_func_num F) - unat i))"
    by simp
next
  fix murmur :: "'a hash128" and elem :: 'a and i :: size_type and F :: basic_filter
    and hash_val :: size_type
  assume "i < b_hash_func_num F"
  then have "unat (i + 1) = unat i + 1" and "unat i < unat (b_hash_func_num F)"
    by unat_arith+
  then show "((murmur, elem, i + 1, F\<lparr>b_bits := (b_bits F)[unat hash_val := True]\<rparr>),
              (murmur, elem, i, F))
             \<in> measure (\<lambda>(murmur, elem, i, F). unat (b_hash_func_num F) - unat i)"
    by simp
qed

definition BasicBloomFilter_add :: "'a hash128 \<Rightarrow> basic_filter \<Rightarrow> 'a \<Rightarrow> error + basic_filter" where
  "BasicBloomFilter_add murmur F elem = basic_add_loop murmur elem 0 F"

text \<open>The loop of \<^verbatim>\<open>contains\<close>, from round \<open>i\<close> on.\<close>

function basic_contains_loop ::
  "'a hash128 \<Rightarrow> 'a \<Rightarrow> size_type \<Rightarrow> basic_filter \<Rightarrow> error + bool" where
  "basic_contains_loop murmur elem i F =
     (if i < b_hash_func_num F then
        (case basic_hash_at_n murmur F elem i of
           Inl err \<Rightarrow> Inl err
         | Inr hash_val \<Rightarrow>
             if unat hash_val < length (b_bits F)
             then (if b_bits F ! unat hash_val \<noteq> True then Inr False
                   else basic_contains_loop murmur elem (i + 1) F)
             else Inl OutOfBounds)
      else Inr True)"
  by pat_completeness auto
termination
proof (relation "measure (\<lambda>(murmur, elem, i, F). unat (b_hash_func_num F) - unat i)")
  show "wf (measure (\<lambda>(murmur, elem, i, F). unat (b_hash_func_num F) - unat i))"
    by simp
next
  fix murmur :: "'a hash128" and elem :: 'a and i :: size_type and F :: basic_filter
  assume "i < b_hash_func_num F"
  then have "unat (i + 1) = unat i + 1" and "unat i < unat (b_hash_func_num F)"
    by unat_arith+
  then show "((murmur, elem, i + 1, F), (murmur, elem, i, F))
             \<in> measure (\<lambda>(murmur, elem, i, F). unat (b_hash_func_num F) - unat i)"
    by simp
qed

definition BasicBloomFilter_contains :: "'a hash128 \<Rightarrow> basic_filter \<Rightarrow> 'a \<Rightarrow> error + bool" where
  "BasicBloomFilter_contains murmur F elem = basic_contains_loop murmur elem 0 F"

definition BasicBloomFilter_swap :: "basic_filter \<Rightarrow> basic_filter \<Rightarrow> basic_filter \<times> basic_filter" where
  "BasicBloomFilter_swap this rhs =
     (let (bits1, bits2) = (b_bits rhs, b_bits this);
          (size1, size2) = (b_bit_array_size rhs, b_bit_array_size this);
          (num1, num2) = (b_hash_func_num rhs, b_hash_func_num this)
      in (\<lparr>b_bits = bits1, b_bit_array_size = size1, b_hash_func_num = num1\<rparr>,
          \<lparr>b_bits = bits2, b_bit_array_size = size2, b_hash_func_num = num2\<rparr>))"

text \<open>A client calling \<^verbatim>\<open>add\<close> on each element of a list in turn.\<close>

fun basic_add_all :: "'a hash128 \<Rightarrow> basic_filter \<Rightarrow> 'a list \<Rightarrow> error + basic_filter" where
  "basic_add_all murmur F [] = Inr F"
| "basic_add_all murmur F (x # xs) =
     (case BasicBloomFilter_add murmur F x of
        Inl err \<Rightarrow> Inl err
      | Inr F' \<Rightarrow> basic_add_all murmur F' xs)"

subsection \<open>OrdinalBloomFilter\<close>

record ordinal_filter =
  o_bits :: "elem_type list"
  o_bit_array_size :: size_type
  o_hash_func_num :: size_type

definition OrdinalBloomFilter_ctor ::
  "allocation \<Rightarrow> array_sizing \<Rightarrow> hash_sizing \<Rightarrow> double \<Rightarrow> size_type
   \<Rightarrow> error + ordinal_filter" where
  "OrdinalBloomFilter_ctor alloc array_size_of hash_num_of false_positive capacity =
     (if double_le false_positive 0 \<or> double_ge false_positive 1 then Inl RangeError
      else
        let bit_array_size = array_size_of false_positive capacity
        in if alloc bit_array_size then
             let bits = replicate (unat bit_array_size) 0;
                 hash_func_num = hash_func_num_of hash_num_of bit_array_size capacity
             in Inr \<lparr>o_bits = bits, o_bit_array_size = bit_array_size,
                      o_hash_func_num = hash_func_num\<rparr>
           else Inl AllocationFailure)"

definition OrdinalBloomFilter_move :: "ordinal_filter \<Rightarrow> ordinal_filter \<times> ordinal_filter" where
  "OrdinalBloomFilter_move rhs =
     (\<lparr>o_bits = o_bits rhs, o_bit_array_size = o_bit_array_size rhs,
       o_hash_func_num = o_hash_func_num rhs\<rparr>,
      \<lparr>o_bits = [], o_bit_array_size = 0, o_hash_func_num = 0\<rparr>)"

definition OrdinalBloomFilter_clear :: "ordinal_filter \<Rightarrow> ordinal_filter" where
  "OrdinalBloomFilter_clear F = F\<lparr>o_bits := replicate (unat (o_bit_array_size F)) 0\<rparr>"

definition ordinal_hash_at_n ::
  "'a hash128 \<Rightarrow> ordinal_filter \<Rightarrow> 'a \<Rightarrow> size_type \<Rightarrow> error + size_type" where
  "ordinal_hash_at_n murmur F p n =
     (let hash_a = fst (murmur p); hash_b = snd (murmur p)
      in if o_bit_array_size F = 0 then Inl DivisionByZero
         else Inr ((hash_a + n * hash_b) mod o_bit_array_size F))"

text \<open>
  The body of the loop of \<^verbatim>\<open>add\<close> after the index has been computed. The comparison
  \<^verbatim>\<open>_bits[hash_val] < i\<close> converts the cell to 64 bits; \<^verbatim>\<open>static_cast<elem_type>(i)\<close>
  keeps the low 8 bits of \<open>i\<close>.
\<close>

definition ordinal_add_round :: "ordinal_filter \<Rightarrow> size_type \<Rightarrow> size_type \<Rightarrow> ordinal_filter" where
  "ordinal_add_round F hash_val i =
     (if (ucast (o_bits F ! unat hash_val) :: size_type) < i
      then F\<lparr>o_bits := (o_bits F)[unat hash_val := (ucast i :: elem_type)]\<rparr>
      else F)"

text \<open>
  The loop of \<^verbatim>\<open>add\<close>, from round \<open>i\<close> on. Its condition is \<^verbatim>\<open>i <= _hash_func_num\<close> on
  64-bit counters, which no \<open>i\<close> falsifies when \<^verbatim>\<open>_hash_func_num\<close> is \<open>2^64 - 1\<close>: the
  loop is a partial function, and \<open>None\<close> is the run that never returns.
\<close>

partial_function (option) ordinal_add_loop ::
  "'a hash128 \<Rightarrow> 'a \<Rightarrow> size_type \<Rightarrow> ordinal_filter \<Rightarrow> (error + ordinal_filter) option" where
  "ordinal_add_loop murmur elem i F =
     (if i \<le> o_hash_func_num F then
        (case ordinal_hash_at_n murmur F elem i of
           Inl err \<Rightarrow> Some (Inl err)
         | Inr hash_val \<Rightarrow>
             if unat hash_val < length (o_bits F)
             then ordinal_add_loop murmur elem (i + 1) (ordinal_add_round F hash_val i)
             else Some (Inl OutOfBounds))
      else Some (Inr F))"

declare ordinal_add_loop.simps [code]

definition OrdinalBloomFilter_add ::
  "'a hash128 \<Rightarrow> ordinal_filter \<Rightarrow> 'a \<Rightarrow> (error + ordinal_filter) option" where
  "OrdinalBloomFilter_add murmur F elem = ordinal_add_loop murmur elem 1 F"

text \<open>
  The loop of \<^verbatim>\<open>contains\<close>, from round \<open>i\<close> on. A cell is at most 255, so the loop goes on
  only while \<open>i \<le> 255\<close>.
\<close>

function ordinal_contains_loop ::
  "'a hash128 \<Rightarrow> 'a \<Rightarrow> size_type \<Rightarrow> ordinal_filter \<Rightarrow> error + bool" where
  "ordinal_contains_loop murmur elem i F =
     (if i \<le> o_hash_func_num F then
        (case ordinal_hash_at_n murmur F elem i of
           Inl err \<Rightarrow> Inl err
         | Inr hash_val \<Rightarrow>
             if unat hash_val < length (o_bits F)
             then (if (ucast (o_bits F ! unat hash_val) :: size_type) < i then Inr False
                   else ordinal_contains_loop murmur elem (i + 1) F)
             else Inl OutOfBounds)
      else Inr True)"
  by pat_completeness auto
termination
proof (relation "measure (\<lambda>(murmur, elem, i, F). 256 - unat i)")
  show "wf (measure (\<lambda>(murmur, elem, i, F). 256 - unat i))"
    by simp
next
  fix murmur :: "'a hash128" and elem :: 'a and i :: size_type and F :: ordinal_filter
    and hash_val :: size_type
  assume "\<not> (ucast (o_bits F ! unat hash_val) :: size_type) < i"
  then have "unat i \<le> unat (ucast (o_bits F ! unat hash_val) :: size_type)"
    by (simp add: word_less_nat_alt)
  moreover have cell: "unat (o_bits F ! unat hash_val) < 256"
    using unsigned_less [of "o_bits F ! unat hash_val", where ?'a = nat] by simp
  moreover have "unat (ucast (o_bits F ! unat hash_val) :: size_type)
                 = unat (o_bits F ! unat hash_val)"
    using cell by (simp add: unsigned_ucast_eq take_bit_nat_eq_self)
  ultimately have "unat i < 256"
    by simp
  then have "unat (i + 1) = unat i + 1"
    by (simp add: unat_word_ariths)
  with \<open>unat i < 256\<close> show "((murmur, elem, i + 1, F), (murmur, elem, i, F))
             \<in> measure (\<lambda>(murmur, elem, i, F). 256 - unat i)"
    by simp
qed

definition OrdinalBloomFilter_contains ::
  "'a hash128 \<Rightarrow> ordinal_filter \<Rightarrow> 'a \<Rightarrow> error + bool" where
  "OrdinalBloomFilter_contains murmur F elem = ordinal_contains_loop murmur elem 1 F"

definition OrdinalBloomFilter_swap ::
  "ordinal_filter \<Rightarrow> ordinal_filter \<Rightarrow> ordinal_filter \<times> ordinal_filter" where
  "OrdinalBloomFilter_swap this rhs =
     (let (bits1, bits2) = (o_bits rhs, o_bits this);
          (size1, size2) = (o_bit_array_size rhs, o_bit_array_size this);
          (num1, num2) = (o_hash_func_num rhs, o_hash_func_num this)
      in (\<lparr>o_bits = bits1, o_bit_array_size = size1, o_hash_func_num = num1\<rparr>,
          \<lparr>o_bits = bits2, o_bit_array_size = size2, o_hash_func_num = num2\<rparr>))"

text \<open>A client calling \<^verbatim>\<open>add\<close> on each element of a list in turn.\<close>

fun ordinal_add_all ::
  "'a hash128 \<Rightarrow> ordinal_filter \<Rightarrow> 'a list \<Rightarrow> (error + ordinal_filter) option" where
  "ordinal_add_all murmur F [] = Some (Inr F)"
| "ordinal_add_all murmur F (x # xs) =
     (case OrdinalBloomFilter_add murmur F x of
        None \<Rightarrow> None
      | Some (Inl err) \<Rightarrow> Some (Inl err)
      | Some (Inr F') \<Rightarrow> ordinal_add_all murmur F' xs)"

section \<open>Invariants and the cells an element hashes to\<close>

text \<open>The index that \<^verbatim>\<open>hash_at_n\<close> returns for a non-zero array size \<open>sz\<close>.\<close>

definition hash_index :: "'a hash128 \<Rightarrow> size_type \<Rightarrow> 'a \<Rightarrow> size_type \<Rightarrow> size_type" where
  "hash_index murmur sz p n = (fst (murmur p) + n * snd (murmur p)) mod sz"

text \<open>
  What the constructors establish when the computed array size is not zero, and what
  \<^verbatim>\<open>add\<close> and \<^verbatim>\<open>clear\<close> keep: the vector has \<^verbatim>\<open>_bit_array_size\<close> cells, and there is
  at least one.
\<close>

definition basic_inv :: "basic_filter \<Rightarrow> bool" where
  "basic_inv F \<longleftrightarrow> length (b_bits F) = unat (b_bit_array_size F) \<and> b_bit_array_size F \<noteq> 0"

definition ordinal_inv :: "ordinal_filter \<Rightarrow> bool" where
  "ordinal_inv F \<longleftrightarrow> length (o_bits F) = unat (o_bit_array_size F) \<and> o_bit_array_size F \<noteq> 0"

text \<open>Round \<open>n\<close> of \<^verbatim>\<open>contains\<close> passes for \<open>elem\<close>: the test of the loop body does not return false.\<close>

definition basic_round_ok :: "'a hash128 \<Rightarrow> basic_filter \<Rightarrow> 'a \<Rightarrow> size_type \<Rightarrow> bool" where
  "basic_round_ok murmur F elem n \<longleftrightarrow>
     b_bit_array_size F \<noteq> 0
     \<and> unat (hash_index murmur (b_bit_array_size F) elem n) < length (b_bits F)
     \<and> b_bits F ! unat (hash_index murmur (b_bit_array_size F) elem n)"

definition ordinal_round_ok :: "'a hash128 \<Rightarrow> ordinal_filter \<Rightarrow> 'a \<Rightarrow> size_type \<Rightarrow> bool" where
  "ordinal_round_ok murmur F elem n \<longleftrightarrow>
     o_bit_array_size F \<noteq> 0
     \<and> unat (hash_index murmur (o_bit_array_size F) elem n) < length (o_bits F)
     \<and> n \<le> ucast (o_bits F ! unat (hash_index murmur (o_bit_array_size F) elem n))"

text \<open>
  What a constructor call with a non-zero capacity establishes, and what \<^verbatim>\<open>add\<close>,
  \<^verbatim>\<open>clear\<close>, a move and \<^verbatim>\<open>swap\<close> keep: the vector has \<^verbatim>\<open>_bit_array_size\<close> cells, and a
  filter without cells has no hash function. Among the states whose vector has
  \<^verbatim>\<open>_bit_array_size\<close> cells, the only ones outside are those with no cell and at least one
  hash function.
\<close>

definition basic_wf :: "basic_filter \<Rightarrow> bool" where
  "basic_wf F \<longleftrightarrow> length (b_bits F) = unat (b_bit_array_size F)
     \<and> (b_bit_array_size F = 0 \<longrightarrow> b_hash_func_num F = 0)"

definition ordinal_wf :: "ordinal_filter \<Rightarrow> bool" where
  "ordinal_wf F \<longleftrightarrow> length (o_bits F) = unat (o_bit_array_size F)
     \<and> (o_bit_array_size F = 0 \<longrightarrow> o_hash_func_num F = 0)"

text \<open>
  The array size as the specification states it, over the reals:
  \<open>ceil(-(capacity * ln(false_positive_rate)) / (ln 2)^2)\<close>.
\<close>

definition formula_bit_array_size :: "real \<Rightarrow> size_type \<Rightarrow> int" where
  "formula_bit_array_size false_positive_rate capacity =
     \<lceil>- (real (unat capacity) * ln false_positive_rate) / (ln 2)\<^sup>2\<rceil>"

text \<open>
  Data for the closed examples below. \<open>example_murmur\<close> is a stand-in for the hash of an
  element of type \<open>nat\<close>. \<open>basic_example\<close> and \<open>ordinal_example\<close> are the filters that
  the constructors build for \<^verbatim>\<open>(0.1, 2)\<close>, where the sizing code computes 10 cells and 3
  hash functions.
\<close>

definition example_murmur :: "nat hash128" where
  "example_murmur x = (word_of_nat (7 * x + 3), word_of_nat (2 * x + 1))"

definition basic_example :: basic_filter where
  "basic_example = \<lparr>b_bits = replicate 10 False, b_bit_array_size = 10, b_hash_func_num = 3\<rparr>"

definition ordinal_example :: ordinal_filter where
  "ordinal_example = \<lparr>o_bits = replicate 10 0, o_bit_array_size = 10, o_hash_func_num = 3\<rparr>"

text \<open>
  \<open>ordinal_259\<close> is the ordinal filter that the constructor builds for \<^verbatim>\<open>(1e-78, 1)\<close>, where
  the sizing code computes 374 cells and 259 hash functions. \<open>basic_no_round\<close> is the basic
  filter for \<^verbatim>\<open>(0.8, 2)\<close>: one cell and 0 hash functions. \<open>basic_capacity_0\<close> is a basic
  filter for capacity 0: the array size is \<open>ceil(0) = 0\<close>, and the number of hash
  functions is the conversion of NaN (0.0 / 0.0) to \<^verbatim>\<open>size_type\<close>, which on x86-64 gives
  \<open>2^63\<close>.
\<close>

definition ordinal_259 :: ordinal_filter where
  "ordinal_259 = \<lparr>o_bits = replicate 374 0, o_bit_array_size = 374, o_hash_func_num = 259\<rparr>"

definition basic_no_round :: basic_filter where
  "basic_no_round = \<lparr>b_bits = [False], b_bit_array_size = 1, b_hash_func_num = 0\<rparr>"

definition basic_capacity_0 :: basic_filter where
  "basic_capacity_0 = \<lparr>b_bits = [], b_bit_array_size = 0, b_hash_func_num = 9223372036854775808\<rparr>"

text \<open>The two example filters after \<^verbatim>\<open>add(3)\<close>.\<close>

definition basic_after_3 :: basic_filter where
  "basic_after_3 =
     \<lparr>b_bits = [False, True, False, False, True, False, False, False, True, False],
      b_bit_array_size = 10, b_hash_func_num = 3\<rparr>"

definition ordinal_after_3 :: ordinal_filter where
  "ordinal_after_3 =
     \<lparr>o_bits = [0, 1, 0, 0, 0, 3, 0, 0, 2, 0], o_bit_array_size = 10, o_hash_func_num = 3\<rparr>"

declare basic_add_loop.simps [simp del] basic_contains_loop.simps [simp del]
  ordinal_contains_loop.simps [simp del]

section \<open>Construction\<close>

lemma BasicBloomFilter_ctor_Finite:
  "BasicBloomFilter_ctor alloc array_size_of hash_num_of (Finite r) capacity = Inl RangeError
   \<longleftrightarrow> \<not> (0 < r \<and> r < 1)"
  by (auto simp: BasicBloomFilter_ctor_def Let_def)

lemma OrdinalBloomFilter_ctor_Finite:
  "OrdinalBloomFilter_ctor alloc array_size_of hash_num_of (Finite r) capacity = Inl RangeError
   \<longleftrightarrow> \<not> (0 < r \<and> r < 1)"
  by (auto simp: OrdinalBloomFilter_ctor_def Let_def)

lemma ctor_infinite:
  "BasicBloomFilter_ctor alloc array_size_of hash_num_of PosInf capacity = Inl RangeError"
  "BasicBloomFilter_ctor alloc array_size_of hash_num_of NegInf capacity = Inl RangeError"
  "OrdinalBloomFilter_ctor alloc array_size_of hash_num_of PosInf capacity = Inl RangeError"
  "OrdinalBloomFilter_ctor alloc array_size_of hash_num_of NegInf capacity = Inl RangeError"
  by (simp_all add: BasicBloomFilter_ctor_def OrdinalBloomFilter_ctor_def)

text \<open>
  Claim C6 (construction rejects an invalid rate). Every rate that is a number outside
  the open interval (0, 1) is rejected, and every rate inside is accepted, as the three
  lemmas above show. NaN is not in the interval either, but both comparisons of the guard
  are false for it: the constructors do not throw \<^verbatim>\<open>std::range_error\<close>, they go on to size
  the array from \<^verbatim>\<open>std::log\<close> of NaN and to allocate it.
\<close>

theorem C6_ctor_accepts_NaN:
  "BasicBloomFilter_ctor alloc array_size_of hash_num_of NaN capacity \<noteq> Inl RangeError
   \<and> OrdinalBloomFilter_ctor alloc array_size_of hash_num_of NaN capacity \<noteq> Inl RangeError"
  by (simp add: BasicBloomFilter_ctor_def OrdinalBloomFilter_ctor_def Let_def)

section \<open>Move construction and swap\<close>

text \<open>
  Claim C9 (move construction). The filter built by the move constructor has the array,
  the size and the number of hash functions that the source had; the source is left with
  size 0, 0 hash functions and a vector without elements, so it holds no cell of the new
  filter. This is so for both variants.
\<close>

theorem C9_move_transfers_state:
  "fst (BasicBloomFilter_move F) = F
   \<and> snd (BasicBloomFilter_move F) = \<lparr>b_bits = [], b_bit_array_size = 0, b_hash_func_num = 0\<rparr>
   \<and> fst (OrdinalBloomFilter_move G) = G
   \<and> snd (OrdinalBloomFilter_move G) = \<lparr>o_bits = [], o_bit_array_size = 0, o_hash_func_num = 0\<rparr>"
  by (simp add: BasicBloomFilter_move_def OrdinalBloomFilter_move_def)

text \<open>
  Claim C10 (swap). \<^verbatim>\<open>F.swap(G)\<close> leaves in \<open>F\<close> the whole state of \<open>G\<close> and in \<open>G\<close> the whole
  state of \<open>F\<close>; swapping twice gives back both original states. This is so for both
  variants.
\<close>

theorem C10_swap_exchanges_states:
  "BasicBloomFilter_swap F G = (G, F)
   \<and> (case BasicBloomFilter_swap F G of (F', G') \<Rightarrow> BasicBloomFilter_swap F' G') = (F, G)
   \<and> OrdinalBloomFilter_swap P Q = (Q, P)
   \<and> (case OrdinalBloomFilter_swap P Q of (P', Q') \<Rightarrow> OrdinalBloomFilter_swap P' Q') = (P, Q)"
  by (simp add: BasicBloomFilter_swap_def OrdinalBloomFilter_swap_def)

section \<open>BasicBloomFilter: the loops\<close>

lemma basic_hash_at_n_eq:
  "basic_hash_at_n murmur F p n =
     (if b_bit_array_size F = 0 then Inl DivisionByZero
      else Inr (hash_index murmur (b_bit_array_size F) p n))"
  by (simp add: basic_hash_at_n_def hash_index_def Let_def)

lemma unat_hash_index_less: "sz \<noteq> 0 \<Longrightarrow> unat (hash_index murmur sz p n) < unat sz"
  unfolding hash_index_def
  by (simp add: word_neq_0_conv word_mod_less_divisor word_less_nat_alt [symmetric])

lemma word_succ_le_iff: "(i :: size_type) < k \<Longrightarrow> i + 1 \<le> n \<longleftrightarrow> i < n"
proof -
  assume "i < k"
  then have "unat (i + 1) = unat i + 1" by unat_arith
  then show ?thesis unfolding word_le_nat_alt word_less_nat_alt by arith
qed


lemma word_le_split: "(i :: size_type) < k \<Longrightarrow> i \<le> n \<longleftrightarrow> n = i \<or> i + 1 \<le> n"
proof -
  assume "i < k"
  then have "i + 1 \<le> n \<longleftrightarrow> i < n" by (rule word_succ_le_iff)
  moreover have "i \<le> n \<longleftrightarrow> n = i \<or> i < n" by auto
  ultimately show ?thesis by simp
qed

lemma basic_add_loop_shape:
  "basic_add_loop murmur elem i F = Inr F' \<Longrightarrow>
     b_bit_array_size F' = b_bit_array_size F \<and> b_hash_func_num F' = b_hash_func_num F
     \<and> length (b_bits F') = length (b_bits F)
     \<and> (\<forall>j. j < length (b_bits F) \<longrightarrow> b_bits F ! j \<longrightarrow> b_bits F' ! j)"
proof (induction murmur elem i F rule: basic_add_loop.induct)
  case (1 murmur elem i F)
  show ?case
  proof (cases "i < b_hash_func_num F")
    case False
    with "1.prems" show ?thesis by (simp add: basic_add_loop.simps [of murmur elem i F])
  next
    case True
    let ?h = "hash_index murmur (b_bit_array_size F) elem i"
    let ?G = "F\<lparr>b_bits := (b_bits F)[unat ?h := True]\<rparr>"
    note step = basic_add_loop.simps [of murmur elem i F]
    have nz: "b_bit_array_size F \<noteq> 0"
      using True "1.prems" by (auto simp: step basic_hash_at_n_eq split: if_splits)
    have h: "basic_hash_at_n murmur F elem i = Inr ?h"
      using nz by (simp add: basic_hash_at_n_eq)
    have inb: "unat ?h < length (b_bits F)"
      using True "1.prems" h by (auto simp: step split: if_splits)
    have rec: "basic_add_loop murmur elem (i + 1) ?G = Inr F'"
      using True "1.prems" h inb by (simp add: step)
    from "1.IH" [OF True h inb rec]
    have ih: "b_bit_array_size F' = b_bit_array_size F" "b_hash_func_num F' = b_hash_func_num F"
      "length (b_bits F') = length (b_bits F)"
      "\<forall>j. j < length (b_bits F) \<longrightarrow> (b_bits F)[unat ?h := True] ! j \<longrightarrow> b_bits F' ! j"
      by simp_all
    have "b_bits F' ! j" if "j < length (b_bits F)" "b_bits F ! j" for j
    proof -
      have "(b_bits F)[unat ?h := True] ! j"
        using that by (cases "j = unat ?h") simp_all
      with ih(4) that(1) show ?thesis by blast
    qed
    with ih show ?thesis by simp
  qed
qed


lemma basic_round_ok_mono:
  assumes "basic_round_ok murmur F elem n"
    and "b_bit_array_size F' = b_bit_array_size F"
    and "length (b_bits F') = length (b_bits F)"
    and "\<forall>j. j < length (b_bits F) \<longrightarrow> b_bits F ! j \<longrightarrow> b_bits F' ! j"
  shows "basic_round_ok murmur F' elem n"
  using assms by (simp add: basic_round_ok_def)

lemma basic_add_loop_sets:
  "basic_add_loop murmur elem i F = Inr F' \<Longrightarrow> i \<le> n \<Longrightarrow> n < b_hash_func_num F \<Longrightarrow>
     basic_round_ok murmur F' elem n"
proof (induction murmur elem i F rule: basic_add_loop.induct)
  case (1 murmur elem i F)
  from "1.prems" have True: "i < b_hash_func_num F" by simp
  let ?h = "hash_index murmur (b_bit_array_size F) elem i"
  let ?G = "F\<lparr>b_bits := (b_bits F)[unat ?h := True]\<rparr>"
  note step = basic_add_loop.simps [of murmur elem i F]
  have nz: "b_bit_array_size F \<noteq> 0"
    using True "1.prems"(1) by (auto simp: step basic_hash_at_n_eq split: if_splits)
  have h: "basic_hash_at_n murmur F elem i = Inr ?h"
    using nz by (simp add: basic_hash_at_n_eq)
  have inb: "unat ?h < length (b_bits F)"
    using True "1.prems"(1) h by (auto simp: step split: if_splits)
  have rec: "basic_add_loop murmur elem (i + 1) ?G = Inr F'"
    using True "1.prems"(1) h inb by (simp add: step)
  note shape = basic_add_loop_shape [OF rec]
  show ?case
  proof (cases "n = i")
    case True
    have "basic_round_ok murmur ?G elem i"
      using nz inb by (simp add: basic_round_ok_def)
    then have "basic_round_ok murmur F' elem i"
      using shape by (intro basic_round_ok_mono [of murmur ?G elem i F']) simp_all
    with True show ?thesis by simp
  next
    case False
    with "1.prems"(2) word_le_split [OF \<open>i < b_hash_func_num F\<close>, of n] have "i + 1 \<le> n"
      by simp
    moreover have "n < b_hash_func_num ?G"
      using "1.prems"(3) by simp
    ultimately show ?thesis
      using "1.IH" [OF \<open>i < b_hash_func_num F\<close> h inb rec] by simp
  qed
qed

lemma basic_add_loop_total:
  "basic_inv F \<Longrightarrow> \<exists>F'. basic_add_loop murmur elem i F = Inr F'"
proof (induction murmur elem i F rule: basic_add_loop.induct)
  case (1 murmur elem i F)
  show ?case
  proof (cases "i < b_hash_func_num F")
    case False
    then show ?thesis by (simp add: basic_add_loop.simps [of murmur elem i F])
  next
    case True
    let ?h = "hash_index murmur (b_bit_array_size F) elem i"
    let ?G = "F\<lparr>b_bits := (b_bits F)[unat ?h := True]\<rparr>"
    from "1.prems" have nz: "b_bit_array_size F \<noteq> 0"
      and len: "length (b_bits F) = unat (b_bit_array_size F)"
      by (simp_all add: basic_inv_def)
    have h: "basic_hash_at_n murmur F elem i = Inr ?h"
      using nz by (simp add: basic_hash_at_n_eq)
    have inb: "unat ?h < length (b_bits F)"
      using unat_hash_index_less [OF nz] len by simp
    have "basic_inv ?G"
      using "1.prems" by (simp add: basic_inv_def)
    from "1.IH" [OF True h inb this] obtain F' where
      "basic_add_loop murmur elem (i + 1) ?G = Inr F'" by blast
    then show ?thesis
      using True h inb by (simp add: basic_add_loop.simps [of murmur elem i F])
  qed
qed

lemma basic_contains_loop_iff:
  "basic_contains_loop murmur elem i F = Inr True \<longleftrightarrow>
     (\<forall>n. i \<le> n \<and> n < b_hash_func_num F \<longrightarrow> basic_round_ok murmur F elem n)"
proof (induction murmur elem i F rule: basic_contains_loop.induct)
  case (1 murmur elem i F)
  note step = basic_contains_loop.simps [of murmur elem i F]
  show ?case
  proof (cases "i < b_hash_func_num F")
    case False
    then have "\<not> (i \<le> n \<and> n < b_hash_func_num F)" for n
      by auto
    then have "\<forall>n. i \<le> n \<and> n < b_hash_func_num F \<longrightarrow> basic_round_ok murmur F elem n"
      by blast
    with False show ?thesis by (simp add: step)
  next
    case True
    let ?h = "hash_index murmur (b_bit_array_size F) elem i"
    show ?thesis
    proof (cases "basic_round_ok murmur F elem i")
      case False
      then have "basic_contains_loop murmur elem i F \<noteq> Inr True"
        using True by (auto simp: step basic_round_ok_def basic_hash_at_n_eq)
      moreover have "\<not> (\<forall>n. i \<le> n \<and> n < b_hash_func_num F \<longrightarrow> basic_round_ok murmur F elem n)"
        using False True by auto
      ultimately show ?thesis by simp
    next
      case ok: True
      then have nz: "b_bit_array_size F \<noteq> 0" and inb: "unat ?h < length (b_bits F)"
        and bit: "b_bits F ! unat ?h"
        by (simp_all add: basic_round_ok_def)
      have h: "basic_hash_at_n murmur F elem i = Inr ?h"
        using nz by (simp add: basic_hash_at_n_eq)
      have "basic_contains_loop murmur elem i F = basic_contains_loop murmur elem (i + 1) F"
        using True h inb bit by (simp add: step)
      also have "\<dots> = Inr True \<longleftrightarrow>
          (\<forall>n. i + 1 \<le> n \<and> n < b_hash_func_num F \<longrightarrow> basic_round_ok murmur F elem n)"
        using "1.IH" [OF True h inb] bit by simp
      also have "\<dots> \<longleftrightarrow>
          (\<forall>n. i \<le> n \<and> n < b_hash_func_num F \<longrightarrow> basic_round_ok murmur F elem n)"
        using ok word_le_split [OF True] by auto
      finally show ?thesis .
    qed
  qed
qed


lemma BasicBloomFilter_ctor_inv:
  assumes "BasicBloomFilter_ctor alloc array_size_of hash_num_of false_positive capacity = Inr F"
    and "b_bit_array_size F \<noteq> 0"
  shows "basic_inv F"
  using assms by (auto simp: BasicBloomFilter_ctor_def basic_inv_def Let_def split: if_splits)

lemma BasicBloomFilter_add_total:
  assumes "basic_inv F"
  shows "\<exists>F'. BasicBloomFilter_add murmur F elem = Inr F' \<and> basic_inv F'
     \<and> b_bit_array_size F' = b_bit_array_size F \<and> b_hash_func_num F' = b_hash_func_num F
     \<and> length (b_bits F') = length (b_bits F)
     \<and> (\<forall>j. j < length (b_bits F) \<longrightarrow> b_bits F ! j \<longrightarrow> b_bits F' ! j)"
proof -
  from basic_add_loop_total [OF assms, where murmur = murmur and elem = elem and i = 0]
  obtain F' where
    F': "basic_add_loop murmur elem 0 F = Inr F'" by blast
  note shape = basic_add_loop_shape [OF F']
  have "basic_inv F'"
    using assms shape by (simp add: basic_inv_def)
  with F' shape show ?thesis
    by (simp add: BasicBloomFilter_add_def)
qed

lemma BasicBloomFilter_add_sets:
  assumes "BasicBloomFilter_add murmur F elem = Inr F'" and "n < b_hash_func_num F"
  shows "basic_round_ok murmur F' elem n"
  using basic_add_loop_sets [of murmur elem 0 F F' n] assms
  by (simp add: BasicBloomFilter_add_def)

lemma BasicBloomFilter_contains_iff:
  "BasicBloomFilter_contains murmur F elem = Inr True \<longleftrightarrow>
     (\<forall>n. n < b_hash_func_num F \<longrightarrow> basic_round_ok murmur F elem n)"
  by (simp add: BasicBloomFilter_contains_def basic_contains_loop_iff)

lemma basic_add_all_total:
  "basic_inv F \<Longrightarrow> \<exists>F'. basic_add_all murmur F xs = Inr F' \<and> basic_inv F'
     \<and> b_bit_array_size F' = b_bit_array_size F \<and> b_hash_func_num F' = b_hash_func_num F
     \<and> length (b_bits F') = length (b_bits F)
     \<and> (\<forall>j. j < length (b_bits F) \<longrightarrow> b_bits F ! j \<longrightarrow> b_bits F' ! j)"
proof (induction xs arbitrary: F)
  case Nil
  then show ?case by simp
next
  case (Cons x xs)
  from BasicBloomFilter_add_total [OF Cons.prems, of murmur x] obtain F1 where
    F1: "BasicBloomFilter_add murmur F x = Inr F1" "basic_inv F1"
      "b_bit_array_size F1 = b_bit_array_size F" "b_hash_func_num F1 = b_hash_func_num F"
      "length (b_bits F1) = length (b_bits F)"
      "\<forall>j. j < length (b_bits F) \<longrightarrow> b_bits F ! j \<longrightarrow> b_bits F1 ! j"
    by blast
  from Cons.IH [OF F1(2)] obtain F' where
    F': "basic_add_all murmur F1 xs = Inr F'" "basic_inv F'"
      "b_bit_array_size F' = b_bit_array_size F1" "b_hash_func_num F' = b_hash_func_num F1"
      "length (b_bits F') = length (b_bits F1)"
      "\<forall>j. j < length (b_bits F1) \<longrightarrow> b_bits F1 ! j \<longrightarrow> b_bits F' ! j"
    by blast
  have "basic_add_all murmur F (x # xs) = Inr F'"
    using F1(1) F'(1) by simp
  moreover have "\<forall>j. j < length (b_bits F) \<longrightarrow> b_bits F ! j \<longrightarrow> b_bits F' ! j"
    using F1(5,6) F'(6) by simp
  ultimately show ?case
    using F1 F' by simp
qed

lemma basic_add_all_append:
  "basic_add_all murmur F (xs @ ys) =
     (case basic_add_all murmur F xs of Inl err \<Rightarrow> Inl err | Inr F' \<Rightarrow> basic_add_all murmur F' ys)"
  by (induction xs arbitrary: F) (simp_all split: sum.splits)


lemma basic_example_ctor:
  "BasicBloomFilter_ctor (\<lambda>_. True) (\<lambda>_ _. 10) (\<lambda>_ _. 3) (Finite (1 / 10)) 2 = Inr basic_example"
  by (simp add: BasicBloomFilter_ctor_def hash_func_num_of_def basic_example_def)

lemma basic_example_inv: "basic_inv basic_example"
  by (simp add: basic_inv_def basic_example_def)

section \<open>OrdinalBloomFilter: the loops\<close>

lemma ordinal_hash_at_n_eq:
  "ordinal_hash_at_n murmur F p n =
     (if o_bit_array_size F = 0 then Inl DivisionByZero
      else Inr (hash_index murmur (o_bit_array_size F) p n))"
  by (simp add: ordinal_hash_at_n_def hash_index_def Let_def)

lemma unat_elem_lt: "unat (c :: elem_type) < 256"
  using unsigned_less [of c, where ?'a = nat] by simp

lemma unat_ucast_elem: "unat (ucast (c :: elem_type) :: size_type) = unat c"
proof -
  have "unat c < 2 ^ 64"
    using unat_elem_lt [of c] by simp
  then show ?thesis
    by (simp add: unsigned_ucast_eq take_bit_nat_eq_self)
qed

lemma unat_ucast_size: "unat (ucast (i :: size_type) :: elem_type) = unat i mod 256"
  by (simp add: unsigned_ucast_eq take_bit_eq_mod)

lemma unat_ucast_size_small:
  "(i :: size_type) \<le> 255 \<Longrightarrow> unat (ucast i :: elem_type) = unat i"
  by (simp add: unat_ucast_size word_le_nat_alt)

lemma ordinal_add_round_scalars [simp]:
  "o_bit_array_size (ordinal_add_round F hash_val i) = o_bit_array_size F"
  "o_hash_func_num (ordinal_add_round F hash_val i) = o_hash_func_num F"
  "length (o_bits (ordinal_add_round F hash_val i)) = length (o_bits F)"
  by (simp_all add: ordinal_add_round_def)

lemma ordinal_add_round_inv: "ordinal_inv F \<Longrightarrow> ordinal_inv (ordinal_add_round F hash_val i)"
  by (simp add: ordinal_inv_def)

lemma ordinal_add_round_max:
  assumes "i \<le> 255" and "unat hash_val < length (o_bits F)"
  shows "o_bits (ordinal_add_round F hash_val i) ! unat hash_val
         = max (o_bits F ! unat hash_val) (ucast i)"
proof -
  let ?c = "o_bits F ! unat hash_val"
  have "(ucast ?c :: size_type) < i \<longleftrightarrow> ?c < (ucast i :: elem_type)"
    using assms(1) by (simp add: word_less_nat_alt unat_ucast_elem unat_ucast_size_small)
  then show ?thesis
    using assms(2) by (auto simp: ordinal_add_round_def max_def)
qed

lemma ordinal_add_round_other:
  "j \<noteq> unat hash_val \<Longrightarrow> o_bits (ordinal_add_round F hash_val i) ! j = o_bits F ! j"
  by (simp add: ordinal_add_round_def)

lemma ordinal_add_round_mono:
  assumes "i \<le> 255" and "unat hash_val < length (o_bits F)"
  shows "o_bits F ! j \<le> o_bits (ordinal_add_round F hash_val i) ! j"
proof (cases "j = unat hash_val")
  case True
  then show ?thesis
    using ordinal_add_round_max [OF assms] by simp
next
  case False
  then show ?thesis by (simp add: ordinal_add_round_other)
qed

lemma ordinal_add_round_reaches:
  assumes "i \<le> 255" and "unat hash_val < length (o_bits F)"
  shows "i \<le> ucast (o_bits (ordinal_add_round F hash_val i) ! unat hash_val)"
proof -
  have "(ucast i :: elem_type) \<le> o_bits (ordinal_add_round F hash_val i) ! unat hash_val"
    using ordinal_add_round_max [OF assms] by simp
  then show ?thesis
    using assms(1) by (simp add: word_le_nat_alt unat_ucast_elem unat_ucast_size_small)
qed

lemma ucast_elem_mono: "(c :: elem_type) \<le> c' \<Longrightarrow> n \<le> (ucast c :: size_type) \<Longrightarrow> n \<le> ucast c'"
  by (simp add: word_le_nat_alt unat_ucast_elem)


lemma unat_succ_le: "(i :: size_type) \<le> k \<Longrightarrow> k \<noteq> - 1 \<Longrightarrow> unat (i + 1) = unat i + 1"
proof -
  assume le: "i \<le> k" and ne: "k \<noteq> - 1"
  have "unat k \<noteq> 2 ^ 64 - 1"
  proof
    assume "unat k = 2 ^ 64 - 1"
    then have "unat k = unat (- 1 :: size_type)"
      by (simp add: unsigned_minus_1_eq_mask mask_eq_exp_minus_1)
    then have "k = - 1"
      by (simp only: word_unat_eq_iff)
    with ne show False by simp
  qed
  moreover have "unat k < 2 ^ 64"
    using unsigned_less [of k, where ?'a = nat] by simp
  ultimately have "unat i + 1 < 2 ^ 64"
    using le by (simp add: word_le_nat_alt)
  then show ?thesis
    by (simp add: unat_word_ariths)
qed

lemma word_le_split': "(i :: size_type) \<le> k \<Longrightarrow> k \<noteq> - 1 \<Longrightarrow> i \<le> n \<longleftrightarrow> n = i \<or> i + 1 \<le> n"
proof -
  assume "i \<le> k" "k \<noteq> - 1"
  then have "unat (i + 1) = unat i + 1" by (rule unat_succ_le)
  then have "i + 1 \<le> n \<longleftrightarrow> unat i < unat n"
    unfolding word_le_nat_alt by arith
  moreover have "n = i \<longleftrightarrow> unat n = unat i"
    by (simp add: word_unat_eq_iff)
  ultimately show ?thesis
    unfolding word_le_nat_alt by arith
qed

lemma ordinal_round_ok_mono:
  assumes "ordinal_round_ok murmur F elem n"
    and "o_bit_array_size F' = o_bit_array_size F"
    and "length (o_bits F') = length (o_bits F)"
    and "\<forall>j. o_bits F ! j \<le> o_bits F' ! j"
  shows "ordinal_round_ok murmur F' elem n"
  using assms ucast_elem_mono unfolding ordinal_round_ok_def by metis

lemma ordinal_add_loop_correct:
  assumes "ordinal_inv F" and "o_hash_func_num F \<noteq> - 1"
  shows "\<exists>F'. ordinal_add_loop murmur elem i F = Some (Inr F') \<and> ordinal_inv F'
     \<and> o_bit_array_size F' = o_bit_array_size F \<and> o_hash_func_num F' = o_hash_func_num F
     \<and> length (o_bits F') = length (o_bits F)
     \<and> (o_hash_func_num F \<le> 255 \<longrightarrow>
          (\<forall>j. o_bits F ! j \<le> o_bits F' ! j)
          \<and> (\<forall>n. i \<le> n \<and> n \<le> o_hash_func_num F \<longrightarrow> ordinal_round_ok murmur F' elem n))"
  using assms
proof (induction "unat (o_hash_func_num F) + 1 - unat i" arbitrary: i F rule: less_induct)
  case less
  note step = ordinal_add_loop.simps [of murmur elem i F]
  show ?case
  proof (cases "i \<le> o_hash_func_num F")
    case False
    then have "ordinal_add_loop murmur elem i F = Some (Inr F)"
      by (simp add: step)
    moreover have "\<forall>n. i \<le> n \<and> n \<le> o_hash_func_num F \<longrightarrow> ordinal_round_ok murmur F elem n"
      using False by auto
    ultimately show ?thesis
      using less.prems by simp
  next
    case True
    let ?h = "hash_index murmur (o_bit_array_size F) elem i"
    let ?G = "ordinal_add_round F ?h i"
    from less.prems(1) have nz: "o_bit_array_size F \<noteq> 0"
      and len: "length (o_bits F) = unat (o_bit_array_size F)"
      by (simp_all add: ordinal_inv_def)
    have h: "ordinal_hash_at_n murmur F elem i = Inr ?h"
      using nz by (simp add: ordinal_hash_at_n_eq)
    have inb: "unat ?h < length (o_bits F)"
      using unat_hash_index_less [OF nz] len by simp
    have unfold: "ordinal_add_loop murmur elem i F = ordinal_add_loop murmur elem (i + 1) ?G"
      using True h inb by (simp add: step)
    have succ: "unat (i + 1) = unat i + 1"
      using True less.prems(2) by (rule unat_succ_le)
    have "unat i \<le> unat (o_hash_func_num F)"
      using True by (simp add: word_le_nat_alt)
    with succ have smaller: "unat (o_hash_func_num ?G) + 1 - unat (i + 1)
        < unat (o_hash_func_num F) + 1 - unat i"
      by simp
    have "ordinal_inv ?G" "o_hash_func_num ?G \<noteq> - 1"
      using less.prems by (simp_all add: ordinal_add_round_inv)
    from less.hyps [OF smaller this] obtain F' where
      F': "ordinal_add_loop murmur elem (i + 1) ?G = Some (Inr F')" "ordinal_inv F'"
        "o_bit_array_size F' = o_bit_array_size F" "o_hash_func_num F' = o_hash_func_num F"
        "length (o_bits F') = length (o_bits F)"
        "o_hash_func_num F \<le> 255 \<longrightarrow>
          (\<forall>j. o_bits ?G ! j \<le> o_bits F' ! j)
          \<and> (\<forall>n. i + 1 \<le> n \<and> n \<le> o_hash_func_num F \<longrightarrow> ordinal_round_ok murmur F' elem n)"
      by auto
    have small: "(\<forall>j. o_bits F ! j \<le> o_bits F' ! j)
          \<and> (\<forall>n. i \<le> n \<and> n \<le> o_hash_func_num F \<longrightarrow> ordinal_round_ok murmur F' elem n)"
      if k: "o_hash_func_num F \<le> 255"
    proof -
      from True k have i: "i \<le> 255" by simp
      from F'(6) k have G_le: "\<forall>j. o_bits ?G ! j \<le> o_bits F' ! j"
        and later: "\<forall>n. i + 1 \<le> n \<and> n \<le> o_hash_func_num F \<longrightarrow> ordinal_round_ok murmur F' elem n"
        by simp_all
      have mono: "\<forall>j. o_bits F ! j \<le> o_bits F' ! j"
        using ordinal_add_round_mono [OF i inb] G_le order_trans by blast
      have "ordinal_round_ok murmur ?G elem i"
        using nz inb ordinal_add_round_reaches [OF i inb] by (simp add: ordinal_round_ok_def)
      then have now: "ordinal_round_ok murmur F' elem i"
        using G_le F'(3,5) by (intro ordinal_round_ok_mono [of murmur ?G elem i F']) simp_all
      have "ordinal_round_ok murmur F' elem n" if "i \<le> n" "n \<le> o_hash_func_num F" for n
        using that now later word_le_split' [OF True less.prems(2), of n] by auto
      with mono show ?thesis by blast
    qed
    show ?thesis
      using unfold F'(1-5) small by simp
  qed
qed


lemma le_255_not_max: "(k :: size_type) \<le> 255 \<Longrightarrow> k \<noteq> - 1"
proof
  assume "k \<le> 255" "k = - 1"
  then have "unat (- 1 :: size_type) \<le> 255"
    by (simp add: word_le_nat_alt)
  then show False
    by (simp add: unsigned_minus_1_eq_mask mask_eq_exp_minus_1)
qed

lemma ordinal_round_ok_small: "ordinal_round_ok murmur F elem n \<Longrightarrow> n \<le> 255"
proof -
  assume "ordinal_round_ok murmur F elem n"
  then have "unat n \<le> unat (o_bits F ! unat (hash_index murmur (o_bit_array_size F) elem n))"
    by (simp add: ordinal_round_ok_def word_le_nat_alt unat_ucast_elem)
  also have "\<dots> < 256" by (rule unat_elem_lt)
  finally show ?thesis by (simp add: word_le_nat_alt)
qed

lemma ordinal_contains_loop_iff:
  "ordinal_contains_loop murmur elem i F = Inr True \<longleftrightarrow>
     (\<forall>n. i \<le> n \<and> n \<le> o_hash_func_num F \<longrightarrow> ordinal_round_ok murmur F elem n)"
proof (induction murmur elem i F rule: ordinal_contains_loop.induct)
  case (1 murmur elem i F)
  note step = ordinal_contains_loop.simps [of murmur elem i F]
  show ?case
  proof (cases "i \<le> o_hash_func_num F")
    case False
    then have "\<forall>n. i \<le> n \<and> n \<le> o_hash_func_num F \<longrightarrow> ordinal_round_ok murmur F elem n"
      by auto
    with False show ?thesis by (simp add: step)
  next
    case True
    let ?h = "hash_index murmur (o_bit_array_size F) elem i"
    show ?thesis
    proof (cases "ordinal_round_ok murmur F elem i")
      case False
      then have "ordinal_contains_loop murmur elem i F \<noteq> Inr True"
        using True by (auto simp: step ordinal_round_ok_def ordinal_hash_at_n_eq not_le)
      moreover have "\<not> (\<forall>n. i \<le> n \<and> n \<le> o_hash_func_num F \<longrightarrow> ordinal_round_ok murmur F elem n)"
        using False True by auto
      ultimately show ?thesis by simp
    next
      case ok: True
      then have nz: "o_bit_array_size F \<noteq> 0" and inb: "unat ?h < length (o_bits F)"
        and cell: "\<not> (ucast (o_bits F ! unat ?h) :: size_type) < i"
        by (simp_all add: ordinal_round_ok_def not_less)
      have h: "ordinal_hash_at_n murmur F elem i = Inr ?h"
        using nz by (simp add: ordinal_hash_at_n_eq)
      have "i \<le> 255"
        using ok by (rule ordinal_round_ok_small)
      then have ne: "i \<noteq> - 1" by (rule le_255_not_max)
      have split: "i \<le> n \<longleftrightarrow> n = i \<or> i + 1 \<le> n" for n
        using word_le_split' [OF order_refl ne] .
      have "ordinal_contains_loop murmur elem i F = ordinal_contains_loop murmur elem (i + 1) F"
        using True h inb cell by (simp add: step)
      also have "\<dots> = Inr True \<longleftrightarrow>
          (\<forall>n. i + 1 \<le> n \<and> n \<le> o_hash_func_num F \<longrightarrow> ordinal_round_ok murmur F elem n)"
        using "1.IH" [OF True h inb cell] by simp
      also have "\<dots> \<longleftrightarrow>
          (\<forall>n. i \<le> n \<and> n \<le> o_hash_func_num F \<longrightarrow> ordinal_round_ok murmur F elem n)"
        using ok split by auto
      finally show ?thesis .
    qed
  qed
qed

lemma OrdinalBloomFilter_contains_iff:
  "OrdinalBloomFilter_contains murmur F elem = Inr True \<longleftrightarrow>
     (\<forall>n. 1 \<le> n \<and> n \<le> o_hash_func_num F \<longrightarrow> ordinal_round_ok murmur F elem n)"
  by (simp add: OrdinalBloomFilter_contains_def ordinal_contains_loop_iff)

lemma OrdinalBloomFilter_contains_small:
  assumes "OrdinalBloomFilter_contains murmur F elem = Inr True"
  shows "o_hash_func_num F \<le> 255"
proof (cases "1 \<le> o_hash_func_num F")
  case True
  with assms have "ordinal_round_ok murmur F elem (o_hash_func_num F)"
    by (simp add: OrdinalBloomFilter_contains_iff)
  then show ?thesis by (rule ordinal_round_ok_small)
next
  case False
  then have "o_hash_func_num F = 0"
    by (simp add: word_le_nat_alt word_unat_eq_iff)
  then show ?thesis by simp
qed

lemma OrdinalBloomFilter_add_correct:
  assumes "ordinal_inv F" and "o_hash_func_num F \<le> 255"
  shows "\<exists>F'. OrdinalBloomFilter_add murmur F elem = Some (Inr F') \<and> ordinal_inv F'
     \<and> o_bit_array_size F' = o_bit_array_size F \<and> o_hash_func_num F' = o_hash_func_num F
     \<and> length (o_bits F') = length (o_bits F)
     \<and> (\<forall>j. o_bits F ! j \<le> o_bits F' ! j)
     \<and> (\<forall>n. 1 \<le> n \<and> n \<le> o_hash_func_num F \<longrightarrow> ordinal_round_ok murmur F' elem n)"
proof -
  from assms(2) have "o_hash_func_num F \<noteq> - 1" by (rule le_255_not_max)
  from ordinal_add_loop_correct [OF assms(1) this, where murmur = murmur and elem = elem and i = 1]
  show ?thesis
    using assms(2) by (simp add: OrdinalBloomFilter_add_def)
qed

lemma ordinal_add_all_correct:
  "ordinal_inv F \<Longrightarrow> o_hash_func_num F \<le> 255 \<Longrightarrow>
   \<exists>F'. ordinal_add_all murmur F xs = Some (Inr F') \<and> ordinal_inv F'
     \<and> o_bit_array_size F' = o_bit_array_size F \<and> o_hash_func_num F' = o_hash_func_num F
     \<and> length (o_bits F') = length (o_bits F)
     \<and> (\<forall>j. o_bits F ! j \<le> o_bits F' ! j)"
proof (induction xs arbitrary: F)
  case Nil
  then show ?case by simp
next
  case (Cons x xs)
  from OrdinalBloomFilter_add_correct [OF Cons.prems, of murmur x] obtain F1 where
    F1: "OrdinalBloomFilter_add murmur F x = Some (Inr F1)" "ordinal_inv F1"
      "o_bit_array_size F1 = o_bit_array_size F" "o_hash_func_num F1 = o_hash_func_num F"
      "length (o_bits F1) = length (o_bits F)"
      "\<forall>j. o_bits F ! j \<le> o_bits F1 ! j"
    by blast
  from F1(4) Cons.prems(2) have "o_hash_func_num F1 \<le> 255" by simp
  from Cons.IH [OF F1(2) this] obtain F' where
    F': "ordinal_add_all murmur F1 xs = Some (Inr F')" "ordinal_inv F'"
      "o_bit_array_size F' = o_bit_array_size F1" "o_hash_func_num F' = o_hash_func_num F1"
      "length (o_bits F') = length (o_bits F1)"
      "\<forall>j. o_bits F1 ! j \<le> o_bits F' ! j"
    by blast
  have "ordinal_add_all murmur F (x # xs) = Some (Inr F')"
    using F1(1) F'(1) by simp
  moreover have "\<forall>j. o_bits F ! j \<le> o_bits F' ! j"
    using F1(6) F'(6) order_trans by blast
  ultimately show ?case
    using F1 F' by simp
qed

lemma ordinal_add_all_append:
  "ordinal_add_all murmur F (xs @ ys) =
     (case ordinal_add_all murmur F xs of
        None \<Rightarrow> None
      | Some (Inl err) \<Rightarrow> Some (Inl err)
      | Some (Inr F') \<Rightarrow> ordinal_add_all murmur F' ys)"
  by (induction xs arbitrary: F) (simp_all split: option.splits sum.splits)

lemma OrdinalBloomFilter_ctor_inv:
  assumes "OrdinalBloomFilter_ctor alloc array_size_of hash_num_of false_positive capacity = Inr F"
    and "o_bit_array_size F \<noteq> 0"
  shows "ordinal_inv F"
  using assms by (auto simp: OrdinalBloomFilter_ctor_def ordinal_inv_def Let_def split: if_splits)

section \<open>Filters without rounds or without cells\<close>

lemma basic_add_all_no_round:
  "b_hash_func_num F = 0 \<Longrightarrow> basic_add_all murmur F xs = Inr F"
  by (induction xs) (simp_all add: BasicBloomFilter_add_def basic_add_loop.simps [of _ _ 0 F])

lemma ordinal_add_all_no_round:
  "o_hash_func_num F = 0 \<Longrightarrow> ordinal_add_all murmur F xs = Some (Inr F)"
  by (induction xs) (simp_all add: OrdinalBloomFilter_add_def ordinal_add_loop.simps [of _ _ 1 F])

lemma BasicBloomFilter_contains_no_cell:
  assumes "BasicBloomFilter_contains murmur F e = Inr True" and "b_bit_array_size F = 0"
  shows "b_hash_func_num F = 0"
proof (rule ccontr)
  assume "b_hash_func_num F \<noteq> 0"
  then have "0 < b_hash_func_num F"
    by (simp add: word_neq_0_conv)
  with assms(1) have "basic_round_ok murmur F e 0"
    by (simp add: BasicBloomFilter_contains_iff)
  with assms(2) show False
    by (simp add: basic_round_ok_def)
qed

lemma OrdinalBloomFilter_contains_no_cell:
  assumes "OrdinalBloomFilter_contains murmur F e = Inr True" and "o_bit_array_size F = 0"
  shows "o_hash_func_num F = 0"
proof (rule ccontr)
  assume "o_hash_func_num F \<noteq> 0"
  then have "0 < o_hash_func_num F"
    by (simp add: word_neq_0_conv)
  then have "0 + 1 \<le> o_hash_func_num F"
    by (rule inc_le)
  with assms(1) have "ordinal_round_ok murmur F e 1"
    by (simp add: OrdinalBloomFilter_contains_iff)
  with assms(2) show False
    by (simp add: ordinal_round_ok_def)
qed

lemma ordinal_add_all_no_cell:
  assumes "o_bit_array_size G = 0" and "ordinal_add_all murmur G elems = Some (Inr G')"
  shows "G' = G"
proof (cases "o_hash_func_num G = 0")
  case True
  then have "ordinal_add_all murmur G elems = Some (Inr G)"
    by (rule ordinal_add_all_no_round)
  with assms(2) show ?thesis by simp
next
  case False
  then have "0 < o_hash_func_num G"
    by (simp add: word_neq_0_conv)
  then have "0 + 1 \<le> o_hash_func_num G"
    by (rule inc_le)
  then have fails: "OrdinalBloomFilter_add murmur G x = Some (Inl DivisionByZero)" for x
    using assms(1)
    by (simp add: OrdinalBloomFilter_add_def ordinal_add_loop.simps [of murmur x 1 G]
        ordinal_hash_at_n_eq)
  show ?thesis
  proof (cases elems)
    case Nil
    with assms(2) show ?thesis by simp
  next
    case (Cons x xs)
    with assms(2) fails [of x] show ?thesis by simp
  qed
qed


section \<open>Indices stay inside the array\<close>

lemma basic_hash_at_n_safe:
  assumes "basic_inv F"
  shows "\<exists>idx. basic_hash_at_n murmur F elem n = Inr idx \<and> idx < b_bit_array_size F
           \<and> unat idx < length (b_bits F)"
proof -
  from assms have nz: "b_bit_array_size F \<noteq> 0"
    and len: "length (b_bits F) = unat (b_bit_array_size F)"
    by (simp_all add: basic_inv_def)
  have "unat (hash_index murmur (b_bit_array_size F) elem n) < unat (b_bit_array_size F)"
    using nz by (rule unat_hash_index_less)
  then show ?thesis
    using nz len by (simp add: basic_hash_at_n_eq word_less_nat_alt)
qed

lemma ordinal_hash_at_n_safe:
  assumes "ordinal_inv F"
  shows "\<exists>idx. ordinal_hash_at_n murmur F elem n = Inr idx \<and> idx < o_bit_array_size F
           \<and> unat idx < length (o_bits F)"
proof -
  from assms have nz: "o_bit_array_size F \<noteq> 0"
    and len: "length (o_bits F) = unat (o_bit_array_size F)"
    by (simp_all add: ordinal_inv_def)
  have "unat (hash_index murmur (o_bit_array_size F) elem n) < unat (o_bit_array_size F)"
    using nz by (rule unat_hash_index_less)
  then show ?thesis
    using nz len by (simp add: ordinal_hash_at_n_eq word_less_nat_alt)
qed

lemma basic_contains_loop_total:
  "basic_inv F \<Longrightarrow> \<exists>b. basic_contains_loop murmur elem i F = Inr b"
proof (induction murmur elem i F rule: basic_contains_loop.induct)
  case (1 murmur elem i F)
  note step = basic_contains_loop.simps [of murmur elem i F]
  show ?case
  proof (cases "i < b_hash_func_num F")
    case False
    then show ?thesis by (auto simp: step)
  next
    case True
    from basic_hash_at_n_safe [OF "1.prems", of murmur elem i] obtain idx where
      idx: "basic_hash_at_n murmur F elem i = Inr idx" "unat idx < length (b_bits F)"
      by blast
    show ?thesis
    proof (cases "b_bits F ! unat idx")
      case False
      then show ?thesis using True idx by (auto simp: step)
    next
      case bit: True
      then have "\<not> b_bits F ! unat idx \<noteq> True" by simp
      from "1.IH" [OF True idx(1) idx(2) this "1.prems"] show ?thesis
        using True idx bit by (simp add: step)
    qed
  qed
qed

lemma ordinal_contains_loop_total:
  "ordinal_inv F \<Longrightarrow> \<exists>b. ordinal_contains_loop murmur elem i F = Inr b"
proof (induction murmur elem i F rule: ordinal_contains_loop.induct)
  case (1 murmur elem i F)
  note step = ordinal_contains_loop.simps [of murmur elem i F]
  show ?case
  proof (cases "i \<le> o_hash_func_num F")
    case False
    then show ?thesis by (auto simp: step)
  next
    case True
    from ordinal_hash_at_n_safe [OF "1.prems", of murmur elem i] obtain idx where
      idx: "ordinal_hash_at_n murmur F elem i = Inr idx" "unat idx < length (o_bits F)"
      by blast
    show ?thesis
    proof (cases "(ucast (o_bits F ! unat idx) :: size_type) < i")
      case True
      then show ?thesis using \<open>i \<le> o_hash_func_num F\<close> idx by (auto simp: step)
    next
      case False
      from "1.IH" [OF True idx(1) idx(2) False "1.prems"] show ?thesis
        using True idx False by (simp add: step)
    qed
  qed
qed



section \<open>States the operations leave\<close>

lemma BasicBloomFilter_ctor_wf:
  assumes "BasicBloomFilter_ctor alloc array_size_of hash_num_of false_positive capacity = Inr F"
    and "capacity \<noteq> 0"
  shows "basic_wf F"
  using assms
  by (auto simp: BasicBloomFilter_ctor_def hash_func_num_of_def basic_wf_def Let_def
      split: if_splits)

lemma OrdinalBloomFilter_ctor_wf:
  assumes "OrdinalBloomFilter_ctor alloc array_size_of hash_num_of false_positive capacity = Inr F"
    and "capacity \<noteq> 0"
  shows "ordinal_wf F"
  using assms
  by (auto simp: OrdinalBloomFilter_ctor_def hash_func_num_of_def ordinal_wf_def Let_def
      split: if_splits)

lemma basic_wf_cases:
  assumes "basic_wf F"
  obtains "basic_inv F" | "b_bit_array_size F = 0" "b_hash_func_num F = 0"
  using assms by (auto simp: basic_wf_def basic_inv_def)

lemma ordinal_wf_cases:
  assumes "ordinal_wf F"
  obtains "ordinal_inv F" | "o_bit_array_size F = 0" "o_hash_func_num F = 0"
  using assms by (auto simp: ordinal_wf_def ordinal_inv_def)

lemma moved_from_wf:
  "basic_wf (snd (BasicBloomFilter_move F))" "ordinal_wf (snd (OrdinalBloomFilter_move G))"
  by (simp_all add: basic_wf_def ordinal_wf_def BasicBloomFilter_move_def
      OrdinalBloomFilter_move_def)

lemma BasicBloomFilter_contains_no_round:
  "b_hash_func_num F = 0 \<Longrightarrow> BasicBloomFilter_contains murmur F e = Inr True"
  by (simp add: BasicBloomFilter_contains_def basic_contains_loop.simps [of murmur e 0 F])

lemma OrdinalBloomFilter_contains_no_round:
  "o_hash_func_num F = 0 \<Longrightarrow> OrdinalBloomFilter_contains murmur F e = Inr True"
  by (simp add: OrdinalBloomFilter_contains_def ordinal_contains_loop.simps [of murmur e 1 F])

lemma ordinal_add_loop_no_error:
  assumes "ordinal_add_loop murmur elem i F = Some y"
  shows "ordinal_inv F \<longrightarrow> (\<exists>F'. y = Inr F')"
proof (rule ordinal_add_loop.raw_induct
    [where P = "\<lambda>_ _ _ F y. ordinal_inv F \<longrightarrow> (\<exists>F'. y = Inr F')", OF _ assms])
  fix loop :: "'a hash128 \<Rightarrow> 'a \<Rightarrow> size_type \<Rightarrow> ordinal_filter \<Rightarrow> (error + ordinal_filter) option"
    and murmur :: "'a hash128" and elem :: 'a and i :: size_type and F :: ordinal_filter
    and y :: "error + ordinal_filter"
  assume IH: "\<And>murmur elem i F y. loop murmur elem i F = Some y \<Longrightarrow>
      ordinal_inv F \<longrightarrow> (\<exists>F'. y = Inr F')"
    and body: "(if i \<le> o_hash_func_num F
      then case ordinal_hash_at_n murmur F elem i of
           Inl err \<Rightarrow> Some (Inl err)
           | Inr hash_val \<Rightarrow>
               if unat hash_val < length (o_bits F)
               then loop murmur elem (i + 1) (ordinal_add_round F hash_val i)
               else Some (Inl OutOfBounds)
      else Some (Inr F)) = Some y"
  show "ordinal_inv F \<longrightarrow> (\<exists>F'. y = Inr F')"
  proof
    assume inv: "ordinal_inv F"
    show "\<exists>F'. y = Inr F'"
    proof (cases "i \<le> o_hash_func_num F")
      case False
      with body show ?thesis by auto
    next
      case True
      from ordinal_hash_at_n_safe [OF inv, of murmur elem i] obtain idx where
        idx: "ordinal_hash_at_n murmur F elem i = Inr idx" "unat idx < length (o_bits F)"
        by blast
      with True body have "loop murmur elem (i + 1) (ordinal_add_round F idx i) = Some y"
        by simp
      from IH [OF this] ordinal_add_round_inv [OF inv] show ?thesis
        by blast
    qed
  qed
qed

lemma OrdinalBloomFilter_add_no_error:
  assumes "ordinal_wf G"
  shows "OrdinalBloomFilter_add murmur G e \<noteq> Some (Inl err)"
  using assms
proof (cases rule: ordinal_wf_cases)
  case 1
  show ?thesis
  proof
    assume "OrdinalBloomFilter_add murmur G e = Some (Inl err)"
    then have "ordinal_add_loop murmur e 1 G = Some (Inl err)"
      by (simp add: OrdinalBloomFilter_add_def)
    from ordinal_add_loop_no_error [OF this] 1 show False
      by simp
  qed
next
  case 2
  then show ?thesis
    by (simp add: OrdinalBloomFilter_add_def ordinal_add_loop.simps [of murmur e 1 G])
qed

lemma basic_wf_total:
  assumes "basic_wf F"
  shows "(\<exists>F'. BasicBloomFilter_add murmur F e = Inr F')
     \<and> (\<exists>b. BasicBloomFilter_contains murmur F e = Inr b)
     \<and> (\<forall>n. n < b_hash_func_num F \<longrightarrow>
           (\<exists>idx. basic_hash_at_n murmur F e n = Inr idx \<and> idx < b_bit_array_size F
                  \<and> unat idx < length (b_bits F)))"
  using assms
proof (cases rule: basic_wf_cases)
  case 1
  have "\<exists>F'. BasicBloomFilter_add murmur F e = Inr F'"
    using BasicBloomFilter_add_total [OF 1, of murmur e] by blast
  moreover have "\<exists>b. BasicBloomFilter_contains murmur F e = Inr b"
    using basic_contains_loop_total [OF 1, of murmur e 0]
    by (simp add: BasicBloomFilter_contains_def)
  moreover have "\<exists>idx. basic_hash_at_n murmur F e n = Inr idx \<and> idx < b_bit_array_size F
      \<and> unat idx < length (b_bits F)" for n
    using 1 by (rule basic_hash_at_n_safe)
  ultimately show ?thesis by blast
next
  case 2
  have "BasicBloomFilter_add murmur F e = Inr F"
    using basic_add_all_no_round [OF 2(2), of murmur "[e]"] by (simp split: sum.splits)
  moreover have "BasicBloomFilter_contains murmur F e = Inr True"
    using 2(2) by (rule BasicBloomFilter_contains_no_round)
  moreover have "\<not> n < b_hash_func_num F" for n
    using 2(2) by simp
  ultimately show ?thesis by blast
qed

lemma ordinal_wf_total:
  assumes "ordinal_wf G"
  shows "(\<forall>err. OrdinalBloomFilter_add murmur G e \<noteq> Some (Inl err))
     \<and> (o_hash_func_num G \<noteq> - 1 \<longrightarrow> (\<exists>G'. OrdinalBloomFilter_add murmur G e = Some (Inr G')))
     \<and> (\<exists>b. OrdinalBloomFilter_contains murmur G e = Inr b)
     \<and> (\<forall>n. 1 \<le> n \<and> n \<le> o_hash_func_num G \<longrightarrow>
           (\<exists>idx. ordinal_hash_at_n murmur G e n = Inr idx \<and> idx < o_bit_array_size G
                  \<and> unat idx < length (o_bits G)))"
proof -
  have no_error: "\<forall>err. OrdinalBloomFilter_add murmur G e \<noteq> Some (Inl err)"
    using OrdinalBloomFilter_add_no_error [OF assms, of murmur e] by blast
  from assms show ?thesis
  proof (cases rule: ordinal_wf_cases)
    case 1
    have "\<exists>G'. OrdinalBloomFilter_add murmur G e = Some (Inr G')" if "o_hash_func_num G \<noteq> - 1"
      using ordinal_add_loop_correct [OF 1 that, of murmur e 1]
      by (auto simp: OrdinalBloomFilter_add_def)
    moreover have "\<exists>b. OrdinalBloomFilter_contains murmur G e = Inr b"
      using ordinal_contains_loop_total [OF 1, of murmur e 1]
      by (simp add: OrdinalBloomFilter_contains_def)
    moreover have "\<exists>idx. ordinal_hash_at_n murmur G e n = Inr idx \<and> idx < o_bit_array_size G
        \<and> unat idx < length (o_bits G)" for n
      using 1 by (rule ordinal_hash_at_n_safe)
    ultimately show ?thesis using no_error by blast
  next
    case 2
    have "OrdinalBloomFilter_add murmur G e = Some (Inr G)"
      using 2(2) by (simp add: OrdinalBloomFilter_add_def ordinal_add_loop.simps [of murmur e 1 G])
    moreover have "OrdinalBloomFilter_contains murmur G e = Inr True"
      using 2(2) by (rule OrdinalBloomFilter_contains_no_round)
    moreover have "\<not> (1 \<le> n \<and> n \<le> o_hash_func_num G)" for n
      using 2(2) by (auto simp: word_le_nat_alt)
    ultimately show ?thesis using no_error by blast
  qed
qed


lemma BasicBloomFilter_add_wf:
  assumes "BasicBloomFilter_add murmur F e = Inr F'" and "basic_wf F"
  shows "basic_wf F'"
  using basic_add_loop_shape [of murmur e 0 F F'] assms
  by (simp add: BasicBloomFilter_add_def basic_wf_def)

lemma ordinal_add_loop_scalars:
  assumes "ordinal_add_loop murmur elem i F = Some y"
  shows "\<forall>F'. y = Inr F' \<longrightarrow> o_bit_array_size F' = o_bit_array_size F
     \<and> o_hash_func_num F' = o_hash_func_num F \<and> length (o_bits F') = length (o_bits F)"
proof (rule ordinal_add_loop.raw_induct
    [where P = "\<lambda>_ _ _ F y. \<forall>F'. y = Inr F' \<longrightarrow> o_bit_array_size F' = o_bit_array_size F
       \<and> o_hash_func_num F' = o_hash_func_num F \<and> length (o_bits F') = length (o_bits F)",
     OF _ assms])
  fix loop :: "'a hash128 \<Rightarrow> 'a \<Rightarrow> size_type \<Rightarrow> ordinal_filter \<Rightarrow> (error + ordinal_filter) option"
    and murmur :: "'a hash128" and elem :: 'a and i :: size_type and F :: ordinal_filter
    and y :: "error + ordinal_filter"
  assume IH: "\<And>murmur elem i F y. loop murmur elem i F = Some y \<Longrightarrow>
      \<forall>F'. y = Inr F' \<longrightarrow> o_bit_array_size F' = o_bit_array_size F
       \<and> o_hash_func_num F' = o_hash_func_num F \<and> length (o_bits F') = length (o_bits F)"
    and body: "(if i \<le> o_hash_func_num F
      then case ordinal_hash_at_n murmur F elem i of
           Inl err \<Rightarrow> Some (Inl err)
           | Inr hash_val \<Rightarrow>
               if unat hash_val < length (o_bits F)
               then loop murmur elem (i + 1) (ordinal_add_round F hash_val i)
               else Some (Inl OutOfBounds)
      else Some (Inr F)) = Some y"
  show "\<forall>F'. y = Inr F' \<longrightarrow> o_bit_array_size F' = o_bit_array_size F
       \<and> o_hash_func_num F' = o_hash_func_num F \<and> length (o_bits F') = length (o_bits F)"
  proof (cases "i \<le> o_hash_func_num F")
    case False
    with body show ?thesis by auto
  next
    case True
    show ?thesis
    proof (cases "ordinal_hash_at_n murmur F elem i")
      case (Inl err)
      with True body show ?thesis by auto
    next
      case (Inr hash_val)
      show ?thesis
      proof (cases "unat hash_val < length (o_bits F)")
        case False
        with True Inr body show ?thesis by auto
      next
        case inb: True
        with True Inr body
        have "loop murmur elem (i + 1) (ordinal_add_round F hash_val i) = Some y"
          by simp
        from IH [OF this] show ?thesis by simp
      qed
    qed
  qed
qed

lemma OrdinalBloomFilter_add_wf:
  assumes "OrdinalBloomFilter_add murmur G e = Some (Inr G')" and "ordinal_wf G"
  shows "ordinal_wf G'"
  using ordinal_add_loop_scalars [of murmur e 1 G "Inr G'"] assms
  by (simp add: OrdinalBloomFilter_add_def ordinal_wf_def)

lemma clear_wf:
  "basic_wf F \<Longrightarrow> basic_wf (BasicBloomFilter_clear F)"
  "ordinal_wf G \<Longrightarrow> ordinal_wf (OrdinalBloomFilter_clear G)"
  by (simp_all add: basic_wf_def ordinal_wf_def BasicBloomFilter_clear_def
      OrdinalBloomFilter_clear_def)

lemma move_to_wf:
  "basic_wf F \<Longrightarrow> basic_wf (fst (BasicBloomFilter_move F))"
  "ordinal_wf G \<Longrightarrow> ordinal_wf (fst (OrdinalBloomFilter_move G))"
  by (simp_all add: basic_wf_def ordinal_wf_def BasicBloomFilter_move_def
      OrdinalBloomFilter_move_def)

lemma swap_wf:
  "basic_wf F \<Longrightarrow> basic_wf F' \<Longrightarrow>
     basic_wf (fst (BasicBloomFilter_swap F F')) \<and> basic_wf (snd (BasicBloomFilter_swap F F'))"
  "ordinal_wf G \<Longrightarrow> ordinal_wf G' \<Longrightarrow>
     ordinal_wf (fst (OrdinalBloomFilter_swap G G')) \<and> ordinal_wf (snd (OrdinalBloomFilter_swap G G'))"
  by (simp_all add: basic_wf_def ordinal_wf_def BasicBloomFilter_swap_def
      OrdinalBloomFilter_swap_def)

lemma ordinal_add_loop_returns_bounded:
  assumes "ordinal_add_loop murmur elem i F = Some y"
  shows "\<not> (ordinal_inv F \<and> o_hash_func_num F = - 1)"
proof (rule ordinal_add_loop.raw_induct
    [where P = "\<lambda>_ _ _ F _. \<not> (ordinal_inv F \<and> o_hash_func_num F = - 1)", OF _ assms])
  fix loop :: "'a hash128 \<Rightarrow> 'a \<Rightarrow> size_type \<Rightarrow> ordinal_filter \<Rightarrow> (error + ordinal_filter) option"
    and murmur :: "'a hash128" and elem :: 'a and i :: size_type and F :: ordinal_filter
    and y :: "error + ordinal_filter"
  assume IH: "\<And>murmur elem i F y. loop murmur elem i F = Some y \<Longrightarrow>
      \<not> (ordinal_inv F \<and> o_hash_func_num F = - 1)"
    and body: "(if i \<le> o_hash_func_num F
      then case ordinal_hash_at_n murmur F elem i of
           Inl err \<Rightarrow> Some (Inl err)
           | Inr hash_val \<Rightarrow>
               if unat hash_val < length (o_bits F)
               then loop murmur elem (i + 1) (ordinal_add_round F hash_val i)
               else Some (Inl OutOfBounds)
      else Some (Inr F)) = Some y"
  show "\<not> (ordinal_inv F \<and> o_hash_func_num F = - 1)"
  proof
    assume a: "ordinal_inv F \<and> o_hash_func_num F = - 1"
    then have inv: "ordinal_inv F" and k: "o_hash_func_num F = - 1" by simp_all
    from ordinal_hash_at_n_safe [OF inv, of murmur elem i] obtain idx where
      idx: "ordinal_hash_at_n murmur F elem i = Inr idx" "unat idx < length (o_bits F)"
      by blast
    with body k have "loop murmur elem (i + 1) (ordinal_add_round F idx i) = Some y"
      by simp
    from IH [OF this] inv k show False
      by (simp add: ordinal_add_round_inv)
  qed
qed

lemma OrdinalBloomFilter_add_never_returns:
  assumes "ordinal_inv G" and "o_hash_func_num G = - 1"
  shows "OrdinalBloomFilter_add murmur G e = None"
proof (cases "OrdinalBloomFilter_add murmur G e")
  case None
  then show ?thesis .
next
  case (Some y)
  then have "ordinal_add_loop murmur e 1 G = Some y"
    by (simp add: OrdinalBloomFilter_add_def)
  from ordinal_add_loop_returns_bounded [OF this] assms show ?thesis
    by simp
qed

section \<open>The example filters\<close>

lemma ordinal_259_ctor:
  "OrdinalBloomFilter_ctor (\<lambda>_. True) (\<lambda>_ _. 374) (\<lambda>_ _. 259) (Finite (1 / 10 ^ 78)) 1 = Inr ordinal_259"
  by (simp add: OrdinalBloomFilter_ctor_def hash_func_num_of_def ordinal_259_def)

lemma basic_no_round_ctor:
  "BasicBloomFilter_ctor (\<lambda>_. True) (\<lambda>_ _. 1) (\<lambda>_ _. 0) (Finite (8 / 10)) 2 = Inr basic_no_round"
  by (simp add: BasicBloomFilter_ctor_def hash_func_num_of_def basic_no_round_def)

lemma basic_capacity_0_ctor:
  "BasicBloomFilter_ctor (\<lambda>_. True) (\<lambda>_ _. 0) (\<lambda>_ _. 9223372036854775808) (Finite (1 / 2)) 0
   = Inr basic_capacity_0"
  by (simp add: BasicBloomFilter_ctor_def hash_func_num_of_def basic_capacity_0_def)

lemma ordinal_259_inv: "ordinal_inv ordinal_259"
  by (simp add: ordinal_inv_def ordinal_259_def)

lemma ordinal_example_inv: "ordinal_inv ordinal_example"
  by (simp add: ordinal_inv_def ordinal_example_def)

lemma ordinal_example_small: "o_hash_func_num ordinal_example \<le> 255"
  by (simp add: ordinal_example_def)


lemma ordinal_example_ctor:
  "OrdinalBloomFilter_ctor (\<lambda>_. True) (\<lambda>_ _. 10) (\<lambda>_ _. 3) (Finite (1 / 10)) 2 = Inr ordinal_example"
  by (simp add: OrdinalBloomFilter_ctor_def hash_func_num_of_def ordinal_example_def)

lemma after_3_states:
  "BasicBloomFilter_add example_murmur basic_example 3 = Inr basic_after_3"
  "OrdinalBloomFilter_add example_murmur ordinal_example 3 = Some (Inr ordinal_after_3)"
  by code_simp+

lemma after_3_contains:
  "BasicBloomFilter_contains example_murmur basic_after_3 3 = Inr True"
  "OrdinalBloomFilter_contains example_murmur ordinal_after_3 3 = Inr True"
  by code_simp+

lemma after_3_inv: "basic_inv basic_after_3" "ordinal_inv ordinal_after_3"
  by (simp_all add: basic_inv_def ordinal_inv_def basic_after_3_def ordinal_after_3_def)

lemma example_wf: "basic_wf basic_example" "ordinal_wf ordinal_example"
  by (simp_all add: basic_wf_def ordinal_wf_def basic_example_def ordinal_example_def)

lemma overflow_ctor:
  "BasicBloomFilter_ctor (\<lambda>_. True) (\<lambda>_ _. 0) hash_num_of (Finite (1 / 100)) (2 ^ 62)
   = Inr \<lparr>b_bits = [], b_bit_array_size = 0, b_hash_func_num = 0\<rparr>"
  "OrdinalBloomFilter_ctor (\<lambda>_. True) (\<lambda>_ _. 0) hash_num_of (Finite (1 / 100)) (2 ^ 62)
   = Inr \<lparr>o_bits = [], o_bit_array_size = 0, o_hash_func_num = 0\<rparr>"
  by (simp_all add: BasicBloomFilter_ctor_def OrdinalBloomFilter_ctor_def hash_func_num_of_def)

section \<open>No false negatives\<close>

lemma basic_inv_no_false_negatives:
  assumes "basic_inv F0"
  shows "\<exists>F. basic_add_all murmur F0 (before @ e # after) = Inr F
           \<and> BasicBloomFilter_contains murmur F e = Inr True"
proof -
  from basic_add_all_total [OF assms, of murmur before] obtain F1 where
    F1: "basic_add_all murmur F0 before = Inr F1" "basic_inv F1" by blast
  from BasicBloomFilter_add_total [OF F1(2), of murmur e] obtain F2 where
    F2: "BasicBloomFilter_add murmur F1 e = Inr F2" "basic_inv F2"
      "b_hash_func_num F2 = b_hash_func_num F1" by blast
  from basic_add_all_total [OF F2(2), of murmur after] obtain F where
    F: "basic_add_all murmur F2 after = Inr F"
      "b_bit_array_size F = b_bit_array_size F2" "b_hash_func_num F = b_hash_func_num F2"
      "length (b_bits F) = length (b_bits F2)"
      "\<forall>j. j < length (b_bits F2) \<longrightarrow> b_bits F2 ! j \<longrightarrow> b_bits F ! j"
    by blast
  have "basic_round_ok murmur F e n" if "n < b_hash_func_num F" for n
  proof -
    have "basic_round_ok murmur F2 e n"
      using BasicBloomFilter_add_sets [OF F2(1)] that F(3) F2(3) by simp
    then show ?thesis
      using F(2,4,5) by (rule basic_round_ok_mono)
  qed
  then have "BasicBloomFilter_contains murmur F e = Inr True"
    by (simp add: BasicBloomFilter_contains_iff)
  moreover have "basic_add_all murmur F0 (before @ e # after) = Inr F"
    using F1(1) F2(1) F(1) by (simp add: basic_add_all_append)
  ultimately show ?thesis by blast
qed

lemma basic_wf_no_false_negatives:
  assumes "basic_wf F0"
  shows "\<exists>F. basic_add_all murmur F0 (before @ e # after) = Inr F
           \<and> BasicBloomFilter_contains murmur F e = Inr True"
  using assms
proof (cases rule: basic_wf_cases)
  case 1
  then show ?thesis by (rule basic_inv_no_false_negatives)
next
  case 2
  then have "basic_add_all murmur F0 (before @ e # after) = Inr F0"
    and "BasicBloomFilter_contains murmur F0 e = Inr True"
    by (simp_all add: basic_add_all_no_round BasicBloomFilter_contains_no_round)
  then show ?thesis by blast
qed

text \<open>
  Claim C1 (BasicBloomFilter has no false negatives). Let \<open>F0\<close> be the filter that the
  constructor builds from a non-zero capacity; that it returns a filter means that the
  rate passed the guard and the array was allocated. Then any run of \<^verbatim>\<open>add\<close> calls that
  contains \<^verbatim>\<open>add(e)\<close>, with any elements added before and after, succeeds, and
  \<^verbatim>\<open>contains(e)\<close> returns true in the state it reaches.
\<close>

theorem C1_basic_no_false_negatives:
  assumes "BasicBloomFilter_ctor alloc array_size_of hash_num_of false_positive capacity = Inr F0"
    and "capacity \<noteq> 0"
  shows "\<exists>F. basic_add_all murmur F0 (before @ e # after) = Inr F
           \<and> BasicBloomFilter_contains murmur F e = Inr True"
proof -
  from assms have "basic_wf F0"
    by (rule BasicBloomFilter_ctor_wf)
  then show ?thesis
    by (rule basic_wf_no_false_negatives)
qed

theorem C1_basic_no_false_negatives_witness:
  "BasicBloomFilter_ctor (\<lambda>_. True) (\<lambda>_ _. 10) (\<lambda>_ _. 3) (Finite (1 / 10)) 2 = Inr basic_example
   \<and> (2 :: size_type) \<noteq> 0
   \<and> (\<exists>F. basic_add_all example_murmur basic_example ([1, 2] @ 3 # [4]) = Inr F
          \<and> BasicBloomFilter_contains example_murmur F 3 = Inr True)"
proof -
  have ne: "(2 :: size_type) \<noteq> 0" by simp
  from C1_basic_no_false_negatives [OF basic_example_ctor ne, of example_murmur "[1, 2]" 3 "[4]"]
    basic_example_ctor ne
  show ?thesis by blast
qed

lemma ordinal_inv_no_false_negatives:
  assumes "ordinal_inv G0" and "o_hash_func_num G0 \<le> 255"
  shows "\<exists>G. ordinal_add_all murmur G0 (before @ e # after) = Some (Inr G)
           \<and> OrdinalBloomFilter_contains murmur G e = Inr True"
proof -
  from ordinal_add_all_correct [OF assms, of murmur before] obtain G1 where
    G1: "ordinal_add_all murmur G0 before = Some (Inr G1)" "ordinal_inv G1"
      "o_hash_func_num G1 = o_hash_func_num G0" by blast
  from G1(3) assms(2) have k1: "o_hash_func_num G1 \<le> 255" by simp
  from OrdinalBloomFilter_add_correct [OF G1(2) k1, of murmur e] obtain G2 where
    G2: "OrdinalBloomFilter_add murmur G1 e = Some (Inr G2)" "ordinal_inv G2"
      "o_hash_func_num G2 = o_hash_func_num G1"
      "\<forall>n. 1 \<le> n \<and> n \<le> o_hash_func_num G1 \<longrightarrow> ordinal_round_ok murmur G2 e n"
    by blast
  from G2(3) k1 have k2: "o_hash_func_num G2 \<le> 255" by simp
  from ordinal_add_all_correct [OF G2(2) k2, of murmur after] obtain G where
    G: "ordinal_add_all murmur G2 after = Some (Inr G)"
      "o_bit_array_size G = o_bit_array_size G2" "o_hash_func_num G = o_hash_func_num G2"
      "length (o_bits G) = length (o_bits G2)"
      "\<forall>j. o_bits G2 ! j \<le> o_bits G ! j"
    by blast
  have "ordinal_round_ok murmur G e n" if "1 \<le> n" "n \<le> o_hash_func_num G" for n
  proof -
    have "ordinal_round_ok murmur G2 e n"
      using G2(3,4) G(3) that by simp
    then show ?thesis
      using G(2,4,5) by (rule ordinal_round_ok_mono)
  qed
  then have "OrdinalBloomFilter_contains murmur G e = Inr True"
    by (simp add: OrdinalBloomFilter_contains_iff)
  moreover have "ordinal_add_all murmur G0 (before @ e # after) = Some (Inr G)"
    using G1(1) G2(1) G(1) by (simp add: ordinal_add_all_append)
  ultimately show ?thesis by blast
qed

lemma ordinal_wf_no_false_negatives:
  assumes "ordinal_wf G0" and "o_hash_func_num G0 \<le> 255"
  shows "\<exists>G. ordinal_add_all murmur G0 (before @ e # after) = Some (Inr G)
           \<and> OrdinalBloomFilter_contains murmur G e = Inr True"
  using assms(1)
proof (cases rule: ordinal_wf_cases)
  case 1
  then show ?thesis using assms(2) by (rule ordinal_inv_no_false_negatives)
next
  case 2
  then have "ordinal_add_all murmur G0 (before @ e # after) = Some (Inr G0)"
    and "OrdinalBloomFilter_contains murmur G0 e = Inr True"
    by (simp_all add: ordinal_add_all_no_round OrdinalBloomFilter_contains_no_round)
  then show ?thesis by blast
qed

text \<open>
  Claim C2 (OrdinalBloomFilter has no false negatives), as amended. Let \<open>G0\<close> be the filter
  that the constructor builds from a non-zero capacity, with at most 255 hash functions,
  the largest round number a cell can hold. Then any run of \<^verbatim>\<open>add\<close> calls that contains
  \<^verbatim>\<open>add(e)\<close>, with any elements added before and after, succeeds, and \<^verbatim>\<open>contains(e)\<close>
  returns true in the state it reaches.
\<close>

theorem C2_ordinal_no_false_negatives:
  assumes "OrdinalBloomFilter_ctor alloc array_size_of hash_num_of false_positive capacity = Inr G0"
    and "capacity \<noteq> 0"
    and "o_hash_func_num G0 \<le> 255"
  shows "\<exists>G. ordinal_add_all murmur G0 (before @ e # after) = Some (Inr G)
           \<and> OrdinalBloomFilter_contains murmur G e = Inr True"
proof -
  from assms(1,2) have "ordinal_wf G0"
    by (rule OrdinalBloomFilter_ctor_wf)
  then show ?thesis
    using assms(3) by (rule ordinal_wf_no_false_negatives)
qed

theorem C2_ordinal_no_false_negatives_witness:
  "OrdinalBloomFilter_ctor (\<lambda>_. True) (\<lambda>_ _. 10) (\<lambda>_ _. 3) (Finite (1 / 10)) 2 = Inr ordinal_example
   \<and> (2 :: size_type) \<noteq> 0
   \<and> o_hash_func_num ordinal_example \<le> 255
   \<and> (\<exists>G. ordinal_add_all example_murmur ordinal_example ([1, 2] @ 3 # [4]) = Some (Inr G)
          \<and> OrdinalBloomFilter_contains example_murmur G 3 = Inr True)"
proof -
  have ne: "(2 :: size_type) \<noteq> 0" by simp
  from C2_ordinal_no_false_negatives [OF ordinal_example_ctor ne ordinal_example_small,
      of example_murmur "[1, 2]" 3 "[4]"]
    ordinal_example_ctor ne ordinal_example_small
  show ?thesis by blast
qed


text \<open>
  The claim as stated covers every filter built from valid parameters. With 259 hash
  functions, round 256 of \<^verbatim>\<open>contains\<close> compares a cell, which is at most 255, with 256:
  \<^verbatim>\<open>contains\<close> is false for the element just added.
\<close>

theorem C2_ordinal_259_rounds_counterexample:
  "OrdinalBloomFilter_ctor (\<lambda>_. True) (\<lambda>_ _. 374) (\<lambda>_ _. 259) (Finite (1 / 10 ^ 78)) 1 = Inr ordinal_259
   \<and> (\<exists>G. OrdinalBloomFilter_add example_murmur ordinal_259 0 = Some (Inr G)
          \<and> OrdinalBloomFilter_contains example_murmur G 0 = Inr False)"
proof -
  have "o_hash_func_num ordinal_259 \<noteq> - 1"
    by (simp add: ordinal_259_def)
  from ordinal_add_loop_correct [OF ordinal_259_inv this, of example_murmur 0 1] obtain G where
    G: "OrdinalBloomFilter_add example_murmur ordinal_259 0 = Some (Inr G)" "ordinal_inv G"
      "o_hash_func_num G = o_hash_func_num ordinal_259"
    by (auto simp: OrdinalBloomFilter_add_def)
  have "\<not> o_hash_func_num G \<le> 255"
    using G(3) by (simp add: ordinal_259_def)
  then have "OrdinalBloomFilter_contains example_murmur G 0 \<noteq> Inr True"
    using OrdinalBloomFilter_contains_small [of example_murmur G 0] by blast
  moreover obtain b where "OrdinalBloomFilter_contains example_murmur G 0 = Inr b"
    using ordinal_contains_loop_total [OF G(2), of example_murmur 0 1]
    by (auto simp: OrdinalBloomFilter_contains_def)
  ultimately have "OrdinalBloomFilter_contains example_murmur G 0 = Inr False"
    by (cases b) simp_all
  with G(1) ordinal_259_ctor show ?thesis by blast
qed

section \<open>Cells of the ordinal filter\<close>

text \<open>
  Claim C3 (ordinal cell monotonicity), as amended. Let \<open>G\<close> be a filter whose vector has
  \<^verbatim>\<open>_bit_array_size\<close> cells, with at most 255 hash functions. Then a sequence of \<^verbatim>\<open>add\<close>
  calls leaves in every cell a value that is not below the one it had; when there is at
  least one cell, every such sequence succeeds; and each round \<open>i\<close> of \<^verbatim>\<open>add\<close> leaves in the
  cell it hashes to the maximum of the cell and \<open>i\<close>.
\<close>

theorem C3_ordinal_cells_never_decrease:
  "(length (o_bits G) = unat (o_bit_array_size G) \<and> o_hash_func_num G \<le> 255
      \<and> ordinal_add_all murmur G elems = Some (Inr G') \<longrightarrow>
      length (o_bits G') = length (o_bits G)
      \<and> (\<forall>idx. idx < length (o_bits G) \<longrightarrow> o_bits G ! idx \<le> o_bits G' ! idx))
   \<and> (ordinal_inv G \<and> o_hash_func_num G \<le> 255 \<longrightarrow>
      (\<exists>G'. ordinal_add_all murmur G elems = Some (Inr G')))
   \<and> (i \<le> o_hash_func_num G \<and> o_hash_func_num G \<le> 255
      \<and> unat hash_val < length (o_bits G) \<longrightarrow>
      o_bits (ordinal_add_round G hash_val i) ! unat hash_val
      = max (o_bits G ! unat hash_val) (ucast i))"
proof (intro conjI impI)
  assume a: "length (o_bits G) = unat (o_bit_array_size G) \<and> o_hash_func_num G \<le> 255
      \<and> ordinal_add_all murmur G elems = Some (Inr G')"
  have "length (o_bits G') = length (o_bits G) \<and> (\<forall>idx. o_bits G ! idx \<le> o_bits G' ! idx)"
  proof (cases "o_bit_array_size G = 0")
    case True
    with a have "G' = G"
      using ordinal_add_all_no_cell [of G murmur elems G'] by blast
    then show ?thesis by simp
  next
    case False
    with a have "ordinal_inv G"
      by (simp add: ordinal_inv_def)
    from ordinal_add_all_correct [OF this, of murmur elems] a show ?thesis
      by auto
  qed
  then show "length (o_bits G') = length (o_bits G)"
    and "\<forall>idx. idx < length (o_bits G) \<longrightarrow> o_bits G ! idx \<le> o_bits G' ! idx"
    by simp_all
next
  assume "ordinal_inv G \<and> o_hash_func_num G \<le> 255"
  then show "\<exists>G'. ordinal_add_all murmur G elems = Some (Inr G')"
    using ordinal_add_all_correct [of G murmur elems] by blast
next
  assume a: "i \<le> o_hash_func_num G \<and> o_hash_func_num G \<le> 255
      \<and> unat hash_val < length (o_bits G)"
  then have "i \<le> 255" by (auto intro: order_trans)
  with a show "o_bits (ordinal_add_round G hash_val i) ! unat hash_val
      = max (o_bits G ! unat hash_val) (ucast i)"
    by (simp add: ordinal_add_round_max)
qed

theorem C3_ordinal_cells_never_decrease_witness:
  "length (o_bits ordinal_example) = unat (o_bit_array_size ordinal_example)
   \<and> o_hash_func_num ordinal_example \<le> 255
   \<and> ordinal_add_all example_murmur ordinal_example [3] = Some (Inr ordinal_after_3)
   \<and> length (o_bits ordinal_after_3) = length (o_bits ordinal_example)
   \<and> 5 < length (o_bits ordinal_example)
   \<and> o_bits ordinal_example ! 5 \<le> o_bits ordinal_after_3 ! 5
   \<and> ordinal_inv ordinal_example
   \<and> (\<exists>G'. ordinal_add_all example_murmur ordinal_example [3] = Some (Inr G'))
   \<and> (2 :: size_type) \<le> o_hash_func_num ordinal_example
   \<and> unat (4 :: size_type) < length (o_bits ordinal_example)
   \<and> o_bits (ordinal_add_round ordinal_example 4 2) ! unat (4 :: size_type)
       = max (o_bits ordinal_example ! unat (4 :: size_type)) (ucast (2 :: size_type))"
proof -
  have a: "length (o_bits ordinal_example) = unat (o_bit_array_size ordinal_example)"
    "(2 :: size_type) \<le> o_hash_func_num ordinal_example"
    "unat (4 :: size_type) < length (o_bits ordinal_example)"
    "5 < length (o_bits ordinal_example)"
    by (simp_all add: ordinal_example_def)
  have b: "ordinal_add_all example_murmur ordinal_example [3] = Some (Inr ordinal_after_3)"
    by (simp add: after_3_states)
  from C3_ordinal_cells_never_decrease [of ordinal_example example_murmur "[3]" ordinal_after_3
      2 4] a b ordinal_example_inv ordinal_example_small
  show ?thesis by blast
qed

text \<open>
  The claim as stated covers every constructed filter. In the filter with 259 hash
  functions, adding the element 0 sets cell 30 to 27. Round 256 of adding the element 1
  hashes to cell 30, finds 27 below 256 and stores the low 8 bits of 256: the cell goes
  from 27 to 0.
\<close>

theorem C3_ordinal_cell_decreases_counterexample:
  "OrdinalBloomFilter_ctor (\<lambda>_. True) (\<lambda>_ _. 374) (\<lambda>_ _. 259) (Finite (1 / 10 ^ 78)) 1 = Inr ordinal_259
   \<and> (case ordinal_add_all example_murmur ordinal_259 [0] of
        Some (Inr G1) \<Rightarrow>
          (case OrdinalBloomFilter_add example_murmur G1 1 of
             Some (Inr G2) \<Rightarrow> o_bits G1 ! 30 = 27 \<and> o_bits G2 ! 30 = 0
           | _ \<Rightarrow> False)
      | _ \<Rightarrow> False)"
proof -
  have "(case ordinal_add_all example_murmur ordinal_259 [0] of
        Some (Inr G1) \<Rightarrow>
          (case OrdinalBloomFilter_add example_murmur G1 1 of
             Some (Inr G2) \<Rightarrow> o_bits G1 ! 30 = 27 \<and> o_bits G2 ! 30 = 0
           | _ \<Rightarrow> False)
      | _ \<Rightarrow> False)"
    by code_simp
  with ordinal_259_ctor show ?thesis by blast
qed

section \<open>Monotonic fullness\<close>

text \<open>
  Claim C4 (monotonic fullness, both variants). Let the vector of the filter have
  \<^verbatim>\<open>_bit_array_size\<close> cells, as in every state that the constructor, \<^verbatim>\<open>add\<close>, \<^verbatim>\<open>clear\<close>, a
  move or \<^verbatim>\<open>swap\<close> leaves. If \<^verbatim>\<open>contains(e)\<close> returns true, then any further \<^verbatim>\<open>add\<close> calls,
  with any elements, succeed and \<^verbatim>\<open>contains(e)\<close> still returns true afterwards.
\<close>

theorem C4_monotonic_fullness:
  "(length (b_bits F) = unat (b_bit_array_size F)
      \<and> BasicBloomFilter_contains murmur F e = Inr True \<longrightarrow>
      (\<exists>F'. basic_add_all murmur F elems = Inr F'
            \<and> BasicBloomFilter_contains murmur F' e = Inr True))
   \<and> (length (o_bits G) = unat (o_bit_array_size G)
      \<and> OrdinalBloomFilter_contains murmur G e = Inr True \<longrightarrow>
      (\<exists>G'. ordinal_add_all murmur G elems = Some (Inr G')
            \<and> OrdinalBloomFilter_contains murmur G' e = Inr True))"
proof (intro conjI impI)
  assume a: "length (b_bits F) = unat (b_bit_array_size F)
      \<and> BasicBloomFilter_contains murmur F e = Inr True"
  show "\<exists>F'. basic_add_all murmur F elems = Inr F'
      \<and> BasicBloomFilter_contains murmur F' e = Inr True"
  proof (cases "b_bit_array_size F = 0")
    case True
    with a have "b_hash_func_num F = 0"
      using BasicBloomFilter_contains_no_cell [of murmur F e] by blast
    then have "basic_add_all murmur F elems = Inr F"
      by (rule basic_add_all_no_round)
    with a show ?thesis by simp
  next
    case False
    with a have "basic_inv F"
      by (simp add: basic_inv_def)
    from basic_add_all_total [OF this, of murmur elems] obtain F' where
      F': "basic_add_all murmur F elems = Inr F'"
        "b_bit_array_size F' = b_bit_array_size F" "b_hash_func_num F' = b_hash_func_num F"
        "length (b_bits F') = length (b_bits F)"
        "\<forall>j. j < length (b_bits F) \<longrightarrow> b_bits F ! j \<longrightarrow> b_bits F' ! j"
      by blast
    have "basic_round_ok murmur F' e n" if "n < b_hash_func_num F'" for n
    proof -
      have "basic_round_ok murmur F e n"
        using a that F'(3) by (simp add: BasicBloomFilter_contains_iff)
      then show ?thesis
        using F'(2,4,5) by (rule basic_round_ok_mono)
    qed
    then have "BasicBloomFilter_contains murmur F' e = Inr True"
      by (simp add: BasicBloomFilter_contains_iff)
    with F'(1) show ?thesis by blast
  qed
next
  assume a: "length (o_bits G) = unat (o_bit_array_size G)
      \<and> OrdinalBloomFilter_contains murmur G e = Inr True"
  show "\<exists>G'. ordinal_add_all murmur G elems = Some (Inr G')
      \<and> OrdinalBloomFilter_contains murmur G' e = Inr True"
  proof (cases "o_bit_array_size G = 0")
    case True
    with a have "o_hash_func_num G = 0"
      using OrdinalBloomFilter_contains_no_cell [of murmur G e] by blast
    then have "ordinal_add_all murmur G elems = Some (Inr G)"
      by (rule ordinal_add_all_no_round)
    with a show ?thesis by simp
  next
    case False
    with a have inv: "ordinal_inv G"
      by (simp add: ordinal_inv_def)
    from a have k: "o_hash_func_num G \<le> 255"
      using OrdinalBloomFilter_contains_small [of murmur G e] by blast
    from ordinal_add_all_correct [OF inv k, of murmur elems] obtain G' where
      G': "ordinal_add_all murmur G elems = Some (Inr G')"
        "o_bit_array_size G' = o_bit_array_size G" "o_hash_func_num G' = o_hash_func_num G"
        "length (o_bits G') = length (o_bits G)"
        "\<forall>j. o_bits G ! j \<le> o_bits G' ! j"
      by blast
    have "ordinal_round_ok murmur G' e n" if "1 \<le> n" "n \<le> o_hash_func_num G'" for n
    proof -
      have "ordinal_round_ok murmur G e n"
        using a that G'(3) by (simp add: OrdinalBloomFilter_contains_iff)
      then show ?thesis
        using G'(2,4,5) by (rule ordinal_round_ok_mono)
    qed
    then have "OrdinalBloomFilter_contains murmur G' e = Inr True"
      by (simp add: OrdinalBloomFilter_contains_iff)
    with G'(1) show ?thesis by blast
  qed
qed

theorem C4_monotonic_fullness_witness:
  "length (b_bits basic_after_3) = unat (b_bit_array_size basic_after_3)
   \<and> BasicBloomFilter_contains example_murmur basic_after_3 3 = Inr True
   \<and> (\<exists>F'. basic_add_all example_murmur basic_after_3 [5, 6] = Inr F'
          \<and> BasicBloomFilter_contains example_murmur F' 3 = Inr True)
   \<and> length (o_bits ordinal_after_3) = unat (o_bit_array_size ordinal_after_3)
   \<and> OrdinalBloomFilter_contains example_murmur ordinal_after_3 3 = Inr True
   \<and> (\<exists>G'. ordinal_add_all example_murmur ordinal_after_3 [5, 6] = Some (Inr G')
          \<and> OrdinalBloomFilter_contains example_murmur G' 3 = Inr True)"
proof -
  have len: "length (b_bits basic_after_3) = unat (b_bit_array_size basic_after_3)"
    "length (o_bits ordinal_after_3) = unat (o_bit_array_size ordinal_after_3)"
    by (simp_all add: basic_after_3_def ordinal_after_3_def)
  from C4_monotonic_fullness [of basic_after_3 example_murmur 3 "[5, 6]" ordinal_after_3]
    len after_3_contains
  show ?thesis by blast
qed

section \<open>Clear\<close>

lemma BasicBloomFilter_clear_contains:
  assumes "b_bit_array_size F \<noteq> 0" and "b_hash_func_num F \<noteq> 0"
  shows "BasicBloomFilter_contains murmur (BasicBloomFilter_clear F) e = Inr False"
proof -
  let ?C = "BasicBloomFilter_clear F"
  let ?h = "hash_index murmur (b_bit_array_size F) e 0"
  have k: "0 < b_hash_func_num ?C"
    using assms(2) by (simp add: BasicBloomFilter_clear_def word_neq_0_conv)
  have h: "basic_hash_at_n murmur ?C e 0 = Inr ?h"
    using assms(1) by (simp add: basic_hash_at_n_eq BasicBloomFilter_clear_def)
  have inb: "unat ?h < unat (b_bit_array_size F)"
    using assms(1) by (rule unat_hash_index_less)
  then have "unat ?h < length (b_bits ?C)" "\<not> b_bits ?C ! unat ?h"
    by (simp_all add: BasicBloomFilter_clear_def)
  then show ?thesis
    using k h by (simp add: BasicBloomFilter_contains_def basic_contains_loop.simps [of murmur e 0 ?C])
qed

lemma OrdinalBloomFilter_clear_contains:
  assumes "o_bit_array_size F \<noteq> 0" and "o_hash_func_num F \<noteq> 0"
  shows "OrdinalBloomFilter_contains murmur (OrdinalBloomFilter_clear F) e = Inr False"
proof -
  let ?C = "OrdinalBloomFilter_clear F"
  let ?h = "hash_index murmur (o_bit_array_size F) e 1"
  have "0 < o_hash_func_num F"
    using assms(2) by (simp add: word_neq_0_conv)
  then have "0 + 1 \<le> o_hash_func_num F"
    by (rule inc_le)
  then have k: "1 \<le> o_hash_func_num ?C"
    by (simp add: OrdinalBloomFilter_clear_def)
  have h: "ordinal_hash_at_n murmur ?C e 1 = Inr ?h"
    using assms(1) by (simp add: ordinal_hash_at_n_eq OrdinalBloomFilter_clear_def)
  have inb: "unat ?h < unat (o_bit_array_size F)"
    using assms(1) by (rule unat_hash_index_less)
  then have "unat ?h < length (o_bits ?C)" "o_bits ?C ! unat ?h = 0"
    by (simp_all add: OrdinalBloomFilter_clear_def)
  then show ?thesis
    using k h
    by (simp add: OrdinalBloomFilter_contains_def ordinal_contains_loop.simps [of murmur e 1 ?C])
qed

text \<open>
  Claim C5 (clear resets exactly), as amended. Let \<open>F0\<close> be the filter that the constructor
  builds from \<open>(false_positive, capacity)\<close>, and \<open>F\<close> any state holding the two scalars of
  \<open>F0\<close> (\<^verbatim>\<open>add\<close> and \<^verbatim>\<open>clear\<close> never change them). Then \<^verbatim>\<open>clear\<close> turns \<open>F\<close> into exactly
  \<open>F0\<close>; and when there is at least one cell and at least one hash function,
  \<^verbatim>\<open>contains(e)\<close> returns false for every element \<open>e\<close> right after \<^verbatim>\<open>clear\<close>. This is so for
  both variants.
\<close>

theorem C5_clear_resets:
  "(BasicBloomFilter_ctor alloc array_size_of hash_num_of false_positive capacity = Inr F0
      \<and> b_bit_array_size F = b_bit_array_size F0 \<and> b_hash_func_num F = b_hash_func_num F0 \<longrightarrow>
      BasicBloomFilter_clear F = F0
      \<and> (b_bit_array_size F \<noteq> 0 \<and> b_hash_func_num F \<noteq> 0 \<longrightarrow>
           BasicBloomFilter_contains murmur (BasicBloomFilter_clear F) e = Inr False))
   \<and> (OrdinalBloomFilter_ctor alloc array_size_of hash_num_of false_positive capacity = Inr G0
      \<and> o_bit_array_size G = o_bit_array_size G0 \<and> o_hash_func_num G = o_hash_func_num G0 \<longrightarrow>
      OrdinalBloomFilter_clear G = G0
      \<and> (o_bit_array_size G \<noteq> 0 \<and> o_hash_func_num G \<noteq> 0 \<longrightarrow>
           OrdinalBloomFilter_contains murmur (OrdinalBloomFilter_clear G) e = Inr False))"
proof (intro conjI impI)
  assume "BasicBloomFilter_ctor alloc array_size_of hash_num_of false_positive capacity = Inr F0
      \<and> b_bit_array_size F = b_bit_array_size F0 \<and> b_hash_func_num F = b_hash_func_num F0"
  then show "BasicBloomFilter_clear F = F0"
    by (cases F) (auto simp: BasicBloomFilter_ctor_def BasicBloomFilter_clear_def Let_def
        split: if_splits)
next
  assume "b_bit_array_size F \<noteq> 0 \<and> b_hash_func_num F \<noteq> 0"
  then show "BasicBloomFilter_contains murmur (BasicBloomFilter_clear F) e = Inr False"
    by (simp add: BasicBloomFilter_clear_contains)
next
  assume "OrdinalBloomFilter_ctor alloc array_size_of hash_num_of false_positive capacity = Inr G0
      \<and> o_bit_array_size G = o_bit_array_size G0 \<and> o_hash_func_num G = o_hash_func_num G0"
  then show "OrdinalBloomFilter_clear G = G0"
    by (cases G) (auto simp: OrdinalBloomFilter_ctor_def OrdinalBloomFilter_clear_def Let_def
        split: if_splits)
next
  assume "o_bit_array_size G \<noteq> 0 \<and> o_hash_func_num G \<noteq> 0"
  then show "OrdinalBloomFilter_contains murmur (OrdinalBloomFilter_clear G) e = Inr False"
    by (simp add: OrdinalBloomFilter_clear_contains)
qed

theorem C5_clear_resets_witness:
  "BasicBloomFilter_ctor (\<lambda>_. True) (\<lambda>_ _. 10) (\<lambda>_ _. 3) (Finite (1 / 10)) 2 = Inr basic_example
   \<and> b_bit_array_size basic_after_3 = b_bit_array_size basic_example
   \<and> b_hash_func_num basic_after_3 = b_hash_func_num basic_example
   \<and> BasicBloomFilter_clear basic_after_3 = basic_example
   \<and> b_bit_array_size basic_after_3 \<noteq> 0 \<and> b_hash_func_num basic_after_3 \<noteq> 0
   \<and> BasicBloomFilter_contains example_murmur (BasicBloomFilter_clear basic_after_3) 3 = Inr False
   \<and> OrdinalBloomFilter_ctor (\<lambda>_. True) (\<lambda>_ _. 10) (\<lambda>_ _. 3) (Finite (1 / 10)) 2 = Inr ordinal_example
   \<and> o_bit_array_size ordinal_after_3 = o_bit_array_size ordinal_example
   \<and> o_hash_func_num ordinal_after_3 = o_hash_func_num ordinal_example
   \<and> OrdinalBloomFilter_clear ordinal_after_3 = ordinal_example
   \<and> o_bit_array_size ordinal_after_3 \<noteq> 0 \<and> o_hash_func_num ordinal_after_3 \<noteq> 0
   \<and> OrdinalBloomFilter_contains example_murmur (OrdinalBloomFilter_clear ordinal_after_3) 3 = Inr False"
proof -
  have scalars:
    "b_bit_array_size basic_after_3 = b_bit_array_size basic_example"
    "b_hash_func_num basic_after_3 = b_hash_func_num basic_example"
    "b_bit_array_size basic_after_3 \<noteq> 0" "b_hash_func_num basic_after_3 \<noteq> 0"
    "o_bit_array_size ordinal_after_3 = o_bit_array_size ordinal_example"
    "o_hash_func_num ordinal_after_3 = o_hash_func_num ordinal_example"
    "o_bit_array_size ordinal_after_3 \<noteq> 0" "o_hash_func_num ordinal_after_3 \<noteq> 0"
    by (simp_all add: basic_after_3_def basic_example_def ordinal_after_3_def ordinal_example_def)
  from C5_clear_resets [of "\<lambda>_. True" "\<lambda>_ _. 10" "\<lambda>_ _. 3" "Finite (1 / 10)" 2 basic_example basic_after_3
      example_murmur 3 ordinal_example ordinal_after_3]
    basic_example_ctor ordinal_example_ctor scalars
  show ?thesis by blast
qed

text \<open>
  The claim as stated has \<^verbatim>\<open>contains\<close> return false after \<^verbatim>\<open>clear\<close> in every constructed filter.
  In the filter of \<^verbatim>\<open>(0.8, 2)\<close>, with 0 hash functions, the loop of \<^verbatim>\<open>contains\<close> has no round
  and the answer is true for every element.
\<close>

theorem C5_no_round_counterexample:
  "BasicBloomFilter_ctor (\<lambda>_. True) (\<lambda>_ _. 1) (\<lambda>_ _. 0) (Finite (8 / 10)) 2 = Inr basic_no_round
   \<and> BasicBloomFilter_contains example_murmur (BasicBloomFilter_clear basic_no_round) 5 = Inr True"
proof -
  have "BasicBloomFilter_contains example_murmur (BasicBloomFilter_clear basic_no_round) 5
        = Inr True"
    by (simp add: BasicBloomFilter_contains_def BasicBloomFilter_clear_def basic_no_round_def
        basic_contains_loop.simps)
  with basic_no_round_ctor show ?thesis by blast
qed

section \<open>Totality and index safety\<close>

text \<open>
  Claim C7 (totality and index safety of add and contains), as amended. Let the filter be
  in any state but one with no cell and at least one hash function: its vector has
  \<^verbatim>\<open>_bit_array_size\<close> cells, and if there is no cell there is no hash function. Then for
  every element \<^verbatim>\<open>add\<close> and \<^verbatim>\<open>contains\<close> end in no error, and in every round of their loops
  \<^verbatim>\<open>hash_at_n\<close> returns an index below \<^verbatim>\<open>_bit_array_size\<close>, which is the length of the
  vector. \<^verbatim>\<open>contains\<close> always returns, and so does \<^verbatim>\<open>add\<close> of the basic variant; \<^verbatim>\<open>add\<close> of the
  ordinal variant returns unless the number of hash functions is \<open>2^64 - 1\<close>, the one
  value for which the condition \<^verbatim>\<open>i <= _hash_func_num\<close> of its loop is never false
  (lemma \<open>OrdinalBloomFilter_add_never_returns\<close>).
\<close>

theorem C7_add_contains_total:
  "(basic_wf F \<longrightarrow>
      (\<exists>F'. BasicBloomFilter_add murmur F e = Inr F')
      \<and> (\<exists>b. BasicBloomFilter_contains murmur F e = Inr b)
      \<and> (\<forall>n. n < b_hash_func_num F \<longrightarrow>
            (\<exists>idx. basic_hash_at_n murmur F e n = Inr idx \<and> idx < b_bit_array_size F
                   \<and> unat idx < length (b_bits F))))
   \<and> (ordinal_wf G \<longrightarrow>
      (\<forall>err. OrdinalBloomFilter_add murmur G e \<noteq> Some (Inl err))
      \<and> (o_hash_func_num G \<noteq> - 1 \<longrightarrow> (\<exists>G'. OrdinalBloomFilter_add murmur G e = Some (Inr G')))
      \<and> (\<exists>b. OrdinalBloomFilter_contains murmur G e = Inr b)
      \<and> (\<forall>n. 1 \<le> n \<and> n \<le> o_hash_func_num G \<longrightarrow>
            (\<exists>idx. ordinal_hash_at_n murmur G e n = Inr idx \<and> idx < o_bit_array_size G
                   \<and> unat idx < length (o_bits G))))"
  using basic_wf_total [of F murmur e] ordinal_wf_total [of G murmur e] by blast

theorem C7_add_contains_total_witness:
  "basic_wf basic_example
   \<and> (\<exists>F'. BasicBloomFilter_add example_murmur basic_example 3 = Inr F')
   \<and> (\<exists>b. BasicBloomFilter_contains example_murmur basic_example 3 = Inr b)
   \<and> 2 < b_hash_func_num basic_example
   \<and> (\<exists>idx. basic_hash_at_n example_murmur basic_example 3 2 = Inr idx
          \<and> idx < b_bit_array_size basic_example \<and> unat idx < length (b_bits basic_example))
   \<and> ordinal_wf ordinal_example
   \<and> (\<forall>err. OrdinalBloomFilter_add example_murmur ordinal_example 3 \<noteq> Some (Inl err))
   \<and> o_hash_func_num ordinal_example \<noteq> - 1
   \<and> (\<exists>G'. OrdinalBloomFilter_add example_murmur ordinal_example 3 = Some (Inr G'))
   \<and> (\<exists>b. OrdinalBloomFilter_contains example_murmur ordinal_example 3 = Inr b)
   \<and> 1 \<le> (3 :: size_type) \<and> 3 \<le> o_hash_func_num ordinal_example
   \<and> (\<exists>idx. ordinal_hash_at_n example_murmur ordinal_example 3 3 = Inr idx
          \<and> idx < o_bit_array_size ordinal_example \<and> unat idx < length (o_bits ordinal_example))"
proof -
  have a: "2 < b_hash_func_num basic_example" "o_hash_func_num ordinal_example \<noteq> - 1"
    "1 \<le> (3 :: size_type)" "3 \<le> o_hash_func_num ordinal_example"
    by (simp_all add: basic_example_def ordinal_example_def)
  from C7_add_contains_total [of basic_example example_murmur 3 ordinal_example]
    example_wf a
  show ?thesis by blast
qed

text \<open>
  The claim as stated covers every filter the constructor completes, with any parameters
  it accepts. Capacity 0 is accepted and gives an array size of 0, and then the first
  round of \<^verbatim>\<open>add\<close> computes a remainder by zero.
\<close>

theorem C7_capacity_0_counterexample:
  "BasicBloomFilter_ctor (\<lambda>_. True) (\<lambda>_ _. 0) (\<lambda>_ _. 9223372036854775808) (Finite (1 / 2)) 0
     = Inr basic_capacity_0
   \<and> BasicBloomFilter_add example_murmur basic_capacity_0 7 = Inl DivisionByZero"
proof -
  have "BasicBloomFilter_add example_murmur basic_capacity_0 7 = Inl DivisionByZero"
    by (simp add: BasicBloomFilter_add_def basic_capacity_0_def basic_hash_at_n_def
        basic_add_loop.simps)
  with basic_capacity_0_ctor show ?thesis by blast
qed

section \<open>Sizing\<close>

lemma ln_100_ge_4: "4 \<le> ln (100 :: real)"
proof -
  have "exp (4 :: real) = exp 1 ^ 4"
    using exp_of_nat_mult [of 4 "1 :: real"] by simp
  also have "\<dots> \<le> 3 ^ 4"
    by (intro power_mono exp_le) simp
  also have "\<dots> \<le> (100 :: real)"
    by simp
  finally have "ln (exp (4 :: real)) \<le> ln 100"
    by (intro ln_mono) simp_all
  then show ?thesis by simp
qed

lemma formula_bit_array_size_large:
  "2 ^ 64 \<le> formula_bit_array_size (1 / 100) (2 ^ 62)"
proof -
  have cap: "real (unat (2 ^ 62 :: size_type)) = 2 ^ 62"
    by simp
  have ln: "ln (1 / 100 :: real) = - ln 100"
    by (simp add: ln_div)
  have pos: "0 < (ln 2 :: real)\<^sup>2" and small: "(ln 2 :: real)\<^sup>2 \<le> 1"
    using ln_2_less_1 ln_gt_zero [of "2 :: real"] by (simp_all add: power_le_one)
  have "(2 :: real) ^ 64 * (ln 2)\<^sup>2 \<le> 2 ^ 64 * 1"
    using small by (intro mult_left_mono) simp_all
  also have "\<dots> = 2 ^ 62 * 4"
    by simp
  also have "\<dots> \<le> 2 ^ 62 * ln 100"
    using ln_100_ge_4 by (intro mult_left_mono) simp_all
  finally have "(2 :: real) ^ 64 \<le> 2 ^ 62 * ln 100 / (ln 2)\<^sup>2"
    using pos by (simp add: pos_le_divide_eq)
  then have "(2 :: real) ^ 64 \<le> - (real (unat (2 ^ 62 :: size_type)) * ln (1 / 100)) / (ln 2)\<^sup>2"
    by (simp only: cap ln)
  then have "(2 :: real) ^ 64
      \<le> of_int \<lceil>- (real (unat (2 ^ 62 :: size_type)) * ln (1 / 100)) / (ln 2)\<^sup>2\<rceil>"
    using le_of_int_ceiling order_trans by blast
  then have "(2 :: int) ^ 64
      \<le> \<lceil>- (real (unat (2 ^ 62 :: size_type)) * ln (1 / 100)) / (ln 2)\<^sup>2\<rceil>"
    by (metis of_int_le_iff of_int_numeral of_int_power)
  then show ?thesis
    by (simp add: formula_bit_array_size_def)
qed

lemma size_type_below_formula:
  "int (unat (s :: size_type)) < formula_bit_array_size (1 / 100) (2 ^ 62)"
proof -
  have "unat s < 2 ^ 64"
    using unsigned_less [of s, where ?'a = nat] by simp
  then have "int (unat s) < 2 ^ 64"
    by (metis of_nat_less_iff of_nat_numeral of_nat_power)
  with formula_bit_array_size_large show ?thesis
    by linarith
qed


text \<open>
  Claim C8 (sizing is the stated formulas). For the rate 0.01 and the capacity \<open>2^62\<close>,
  both valid, the formula of the array size is above \<open>2^64\<close>: whatever a constructor that
  completes has stored in \<^verbatim>\<open>_bit_array_size\<close>, a 64-bit value, is below the formula's value.
  The code converts the double to \<^verbatim>\<open>size_type\<close> without a check of its range.
\<close>

theorem C8_array_size_exceeds_size_type:
  "(BasicBloomFilter_ctor alloc array_size_of hash_num_of (Finite (1 / 100)) (2 ^ 62) = Inr F \<longrightarrow>
      int (unat (b_bit_array_size F)) < formula_bit_array_size (1 / 100) (2 ^ 62))
   \<and> (OrdinalBloomFilter_ctor alloc array_size_of hash_num_of (Finite (1 / 100)) (2 ^ 62) = Inr G \<longrightarrow>
      int (unat (o_bit_array_size G)) < formula_bit_array_size (1 / 100) (2 ^ 62))"
  using size_type_below_formula [of "b_bit_array_size F"]
    size_type_below_formula [of "o_bit_array_size G"] by blast

theorem C8_array_size_exceeds_size_type_witness:
  "BasicBloomFilter_ctor (\<lambda>_. True) (\<lambda>_ _. 0) (\<lambda>_ _. 0) (Finite (1 / 100)) (2 ^ 62)
     = Inr \<lparr>b_bits = [], b_bit_array_size = 0, b_hash_func_num = 0\<rparr>
   \<and> int (unat (b_bit_array_size \<lparr>b_bits = [], b_bit_array_size = 0, b_hash_func_num = 0\<rparr>))
       < formula_bit_array_size (1 / 100) (2 ^ 62)
   \<and> OrdinalBloomFilter_ctor (\<lambda>_. True) (\<lambda>_ _. 0) (\<lambda>_ _. 0) (Finite (1 / 100)) (2 ^ 62)
     = Inr \<lparr>o_bits = [], o_bit_array_size = 0, o_hash_func_num = 0\<rparr>
   \<and> int (unat (o_bit_array_size \<lparr>o_bits = [], o_bit_array_size = 0, o_hash_func_num = 0\<rparr>))
       < formula_bit_array_size (1 / 100) (2 ^ 62)"
  using C8_array_size_exceeds_size_type [of "\<lambda>_. True" "\<lambda>_ _. 0" "\<lambda>_ _. 0"
      "\<lparr>b_bits = [], b_bit_array_size = 0, b_hash_func_num = 0\<rparr>"
      "\<lparr>o_bits = [], o_bit_array_size = 0, o_hash_func_num = 0\<rparr>"]
    overflow_ctor [of "\<lambda>_ _. 0"]
  by blast

end
